theory Spec2Isabelle
  imports Main "HOL-Library.Char_ord" "HOL-Library.List_Lexorder" "HOL-Library.Multiset"
begin

section \<open>Strings of the Go standard library\<close>

text \<open>
  Go strings are byte sequences, compared bytewise and lexicographically by \<open><\<close>; they are
  modelled as \<^typ>\<open>string\<close> with the order of \<open>Char_ord\<close> and \<open>List_Lexorder\<close>.
  \<open>strings.ToLower\<close> works on Unicode letters through tables of the library; it is not
  defined here but taken as a parameter of the world below.
\<close>

text \<open>\<open>fmt.Sprintf("%v", n)\<close> for an \<open>int\<close>: the decimal numeral.\<close>

fun digits :: "nat \<Rightarrow> string" where
  "digits n =
     (if n < 10 then [char_of (48 + n)] else digits (n div 10) @ [char_of (48 + n mod 10)])"

definition itoa :: "int \<Rightarrow> string" where
  "itoa i = (if i < 0 then CHR ''-'' # digits (nat (- i)) else digits (nat i))"

text \<open>
  \<open>filepath.Base\<close> with \<open>/\<close> as the separator: the last element of the path, after
  trailing separators are removed; \<open>.\<close> for the empty path, \<open>/\<close> for a path of
  separators only.
\<close>

definition Base :: "string \<Rightarrow> string" where
  "Base path =
     (if path = [] then ''.''
      else
        (let stripped = rev (dropWhile (\<lambda>c. c = CHR ''/'') (rev path));
             elem = rev (takeWhile (\<lambda>c. c \<noteq> CHR ''/'') (rev stripped))
         in if elem = [] then ''/'' else elem))"

section \<open>Records of the store\<close>

text \<open>
  Modelled from the spec: the declarations of \<open>storage.HTTPHeader\<close> and
  \<open>storage.HTTResponse\<close> are not among the sources. The fields are those the data model of
  the specification lists, which are also the only ones \<open>generate.go\<close> reads or writes.
\<close>

record HTTPHeader =
  Key :: string
  Value :: string

record HTTResponse =
  URL :: string
  FinalURL :: string
  ResponseCode :: int
  PageTitle :: string
  ScreenshotFile :: string
  Headers :: "HTTPHeader list"

section \<open>The world around the command\<close>

text \<open>The three outcomes of \<open>os.Stat\<close> that \<open>os.IsNotExist\<close> tells apart.\<close>

datatype stat_result = StatOk | StatNotExist | StatOtherError

text \<open>What the program passes to the template (the local type \<open>TemplateData\<close>).\<close>

record TemplateData =
  ScreenShots :: "HTTResponse list"
  PageIndex :: string
  PageCount :: int
  PageNext :: string
  PagePrev :: string
  PageNumber :: int
  ErrorsIgnored :: int

text \<open>
  Everything the command reads from outside: the two flags, the constant
  \<open>gwtmpl.PlaceHolderImage\<close> (its declaration is not among the sources), the database
  (\<open>db.Db.View\<close> either fails before the scan or hands over the entries in ascending key
  order), \<open>json.Unmarshal\<close>, \<open>os.Stat\<close>, \<open>sort.Slice\<close>, \<open>strings.ToLower\<close>, the parsed template
  (\<open>Parse\<close> fails, or gives an \<open>Execute\<close> that returns the bytes it wrote to the buffer and
  whether it failed) and \<open>ioutil.WriteFile\<close> (\<open>True\<close> when it returns an error).
\<close>

record env =
  pageSize :: int
  includeErrors :: bool
  PlaceHolderImage :: string
  db :: "string + (string \<times> string) list"
  unmarshal :: "string \<Rightarrow> string + HTTResponse"
  stat :: "string \<Rightarrow> stat_result"
  sort_slice :: "(HTTResponse \<Rightarrow> HTTResponse \<Rightarrow> bool) \<Rightarrow> HTTResponse list \<Rightarrow> HTTResponse list"
  ToLower :: "string \<Rightarrow> string"
  template :: "string + (TemplateData \<Rightarrow> string \<times> bool)"
  write_file :: "string \<Rightarrow> string \<Rightarrow> bool"

section \<open>Loading and filtering (the callback of \<open>tx.Ascend\<close>)\<close>

text \<open>Lines 50 to 55: the placeholder is slid in exactly when \<open>os.IsNotExist\<close> holds.\<close>

definition probe :: "env \<Rightarrow> HTTResponse \<Rightarrow> HTTResponse" where
  "probe e data =
     (if stat e (ScreenshotFile data) = StatNotExist
      then data\<lparr>ScreenshotFile := PlaceHolderImage e\<rparr> else data)"

text \<open>
  One call of the callback on the state \<open>(screenshotEntries, errorsIgnored)\<close>. \<open>Inl\<close> is
  \<open>log.Fatal(err)\<close>, which ends the process.
\<close>

definition callback ::
  "env \<Rightarrow> string \<times> string \<Rightarrow> HTTResponse list \<times> int \<Rightarrow> string + HTTResponse list \<times> int" where
  "callback e kv st =
     (case unmarshal e (snd kv) of
        Inl err \<Rightarrow> Inl err
      | Inr data0 \<Rightarrow>
          (let data = probe e data0 in
           if includeErrors e then Inr (fst st @ [data], snd st)
           else if 200 \<le> ResponseCode data \<and> ResponseCode data < 300
             then Inr (fst st @ [data], snd st)
           else Inr (fst st, snd st + 1)))"

fun ascend ::
  "env \<Rightarrow> (string \<times> string) list \<Rightarrow> HTTResponse list \<times> int \<Rightarrow> string + HTTResponse list \<times> int" where
  "ascend e [] st = Inr st"
| "ascend e (kv # kvs) st =
     (case callback e kv st of Inl err \<Rightarrow> Inl err | Inr st' \<Rightarrow> ascend e kvs st')"

text \<open>
  The loader on its own, for stating what the filter keeps: every value decoded and probed,
  in scan order, failing at the first value that does not decode.
\<close>

fun load_all :: "env \<Rightarrow> (string \<times> string) list \<Rightarrow> string + HTTResponse list" where
  "load_all e [] = Inr []"
| "load_all e (kv # kvs) =
     (case unmarshal e (snd kv) of
        Inl err \<Rightarrow> Inl err
      | Inr data0 \<Rightarrow>
          (case load_all e kvs of Inl err \<Rightarrow> Inl err | Inr ds \<Rightarrow> Inr (probe e data0 # ds)))"

definition successful :: "HTTResponse \<Rightarrow> bool" where
  "successful data = (200 \<le> ResponseCode data \<and> ResponseCode data < 300)"

section \<open>Sorting (lines 71 to 95)\<close>

text \<open>The comparison of the first \<open>sort.Slice\<close>, on the two elements it is asked about.\<close>

definition title_less :: "env \<Rightarrow> HTTResponse \<Rightarrow> HTTResponse \<Rightarrow> bool" where
  "title_less e a b = (ToLower e (PageTitle a) < ToLower e (PageTitle b))"

text \<open>
  The scan for \<open>lastSortIndex\<close>: the index of the first entry with a title, by the
  \<open>break\<close>; the initial value \<open>0\<close> when the loop ends without finding one.
\<close>

fun scan_titled :: "HTTResponse list \<Rightarrow> nat \<Rightarrow> nat" where
  "scan_titled [] i = 0"
| "scan_titled (screen # rest) i =
     (if PageTitle screen \<noteq> [] then i else scan_titled rest (Suc i))"

definition lastSortIndex :: "HTTResponse list \<Rightarrow> nat" where
  "lastSortIndex entries = scan_titled entries 0"

text \<open>
  The loops of lines 88 to 93 run over all headers without a \<open>break\<close>, assigning at every
  header whose lower-cased key is \<open>server\<close>.
\<close>

definition server_of :: "env \<Rightarrow> HTTResponse \<Rightarrow> string" where
  "server_of e r =
     foldl (\<lambda>server h. if ToLower e (Key h) = ''server'' then ToLower e (Value h) else server)
       [] (Headers r)"

definition server_less :: "env \<Rightarrow> HTTResponse \<Rightarrow> HTTResponse \<Rightarrow> bool" where
  "server_less e a b = (server_of e a < server_of e b)"

definition sort_entries :: "env \<Rightarrow> HTTResponse list \<Rightarrow> HTTResponse list" where
  "sort_entries e entries =
     (let by_title = sort_slice e (title_less e) entries;
          k = lastSortIndex by_title
      in sort_slice e (server_less e) (take k by_title) @ drop k by_title)"

section \<open>Go integers and slices\<close>

text \<open>
  Go's \<open>%\<close> truncates toward zero and panics on a zero divisor; a slice expression panics
  outside \<open>0 \<le> low \<le> high \<le> len\<close>. \<open>None\<close> is the panic. The \<open>int\<close> of Go has 64 bits.
  For a positive page size the sums below stay under \<open>len + pageSize\<close>, and \<open>i + pageSize\<close>
  could only wrap around for a slice of more than \<open>2^62\<close> entries, so they are computed in
  \<^typ>\<open>int\<close>. For a negative page size the 64-bit \<open>i\<close> would wrap around in the end, which
  this model does not follow: there its loops simply do not return.
\<close>

definition go_rem :: "int \<Rightarrow> int \<Rightarrow> int option" where
  "go_rem a b = (if b = 0 then None else Some (sgn a * (\<bar>a\<bar> mod \<bar>b\<bar>)))"

definition go_slice :: "'a list \<Rightarrow> int \<Rightarrow> int \<Rightarrow> 'a list option" where
  "go_slice xs lo hi =
     (if 0 \<le> lo \<and> lo \<le> hi \<and> hi \<le> int (length xs)
      then Some (take (nat (hi - lo)) (drop (nat lo) xs)) else None)"

section \<open>The page index (lines 123 to 131)\<close>

definition index_anchor :: "int \<Rightarrow> string" where
  "index_anchor pageno =
     ''&#8226;<a class='' @ [CHR 0x22] @ ''page-number'' @ [CHR 0x22] @ '' href='' @ [CHR 0x22]
       @ (''page-'' @ itoa pageno @ ''.html'') @ [CHR 0x22] @ ''>'' @ itoa pageno @ ''</a>''"

text \<open>
  The loop \<open>for i := 0; i < len(screenshotEntries); i += pageSize\<close> on the state
  \<open>(pageIndex, pageno)\<close>. With the page size \<open>0\<close> it does not return on a non-empty slice.
\<close>

partial_function (option) index_loop ::
  "int \<Rightarrow> int \<Rightarrow> int \<Rightarrow> string \<times> int \<Rightarrow> (string \<times> int) option" where
  "index_loop n step i st =
     (if i < n then index_loop n step (i + step) (fst st @ index_anchor (snd st), snd st + 1)
      else Some st)"

declare index_loop.simps [code]

section \<open>The display projection (lines 133 to 144)\<close>

definition display :: "env \<Rightarrow> HTTResponse \<Rightarrow> HTTResponse" where
  "display e screen =
     (let shown = (if ScreenshotFile screen \<noteq> PlaceHolderImage e
                   then screen\<lparr>ScreenshotFile := Base (ScreenshotFile screen)\<rparr> else screen)
      in shown\<lparr>Headers := filter (\<lambda>header. ToLower e (Key header) = ''server'') (Headers shown)\<rparr>)"

section \<open>Rendering and writing (lines 146 to 166)\<close>

definition prev_link :: "int \<Rightarrow> string" where
  "prev_link n =
     ''<a id='' @ [CHR 0x22] @ ''prev-page'' @ [CHR 0x22] @ '' href='' @ [CHR 0x22]
       @ ''page-'' @ itoa n @ ''.html'' @ [CHR 0x22] @ ''>Prev</a>''"

definition next_link :: "int \<Rightarrow> string" where
  "next_link n =
     ''&#8226;<a id='' @ [CHR 0x22] @ ''next-page'' @ [CHR 0x22] @ '' href='' @ [CHR 0x22]
       @ ''page-'' @ itoa n @ ''.html'' @ [CHR 0x22] @ ''>Next</a>''"

definition page_file :: "int \<Rightarrow> string" where
  "page_file pageno = ''./page-'' @ itoa pageno @ ''.html''"

text \<open>
  What one iteration does to the world: the data handed to \<open>Execute\<close>, whether \<open>Execute\<close>
  failed, the name and bytes handed to \<open>WriteFile\<close>, whether \<open>WriteFile\<close> failed. The program
  looks at neither result.
\<close>

record page_out =
  page_data :: TemplateData
  execute_failed :: bool
  file_name :: string
  file_bytes :: string
  write_failed :: bool

text \<open>The body of the loop at index \<open>i\<close>; \<open>None\<close> when an expression of the body panics.\<close>

definition render_page ::
  "env \<Rightarrow> (TemplateData \<Rightarrow> string \<times> bool) \<Rightarrow> HTTResponse list \<Rightarrow> string \<Rightarrow> int \<Rightarrow> int
     \<Rightarrow> int \<Rightarrow> int \<Rightarrow> page_out option" where
  "render_page e exec entries pageIndex pageCount errorsIgnored i pageno =
     (let end0 = int (length entries) - i;
          end1 = (if pageSize e < end0 then pageSize e else end0)
      in case go_rem (pageno + pageCount - 1) pageCount of
           None \<Rightarrow> None
         | Some p \<Rightarrow>
             (case go_rem (pageno + 1) pageCount of
                None \<Rightarrow> None
              | Some n \<Rightarrow>
                  (case go_slice entries i (i + end1) of
                     None \<Rightarrow> None
                   | Some shots \<Rightarrow>
                       (let templateData =
                              \<lparr>ScreenShots = shots, PageIndex = pageIndex,
                               PageCount = int (length entries), PageNext = next_link n,
                               PagePrev = prev_link p, PageNumber = pageno,
                               ErrorsIgnored = errorsIgnored\<rparr>;
                            page = exec templateData;
                            pageFile = page_file pageno
                        in Some \<lparr>page_data = templateData, execute_failed = snd page,
                                 file_name = pageFile, file_bytes = fst page,
                                 write_failed = write_file e pageFile (fst page)\<rparr>))))"

text \<open>
  The loop on the state \<open>(i, pageno)\<close>, collecting the pages; the flag of the result says
  whether it ended in a panic.
\<close>

partial_function (option) render_loop ::
  "env \<Rightarrow> (TemplateData \<Rightarrow> string \<times> bool) \<Rightarrow> HTTResponse list \<Rightarrow> string \<Rightarrow> int \<Rightarrow> int
     \<Rightarrow> int \<Rightarrow> int \<Rightarrow> page_out list \<Rightarrow> (page_out list \<times> bool) option" where
  "render_loop e exec entries pageIndex pageCount errorsIgnored i pageno acc =
     (if i < int (length entries) then
        (case render_page e exec entries pageIndex pageCount errorsIgnored i pageno of
           None \<Rightarrow> Some (acc, True)
         | Some out \<Rightarrow>
             render_loop e exec entries pageIndex pageCount errorsIgnored
               (i + pageSize e) (pageno + 1) (acc @ [out]))
      else Some (acc, False))"

declare render_loop.simps [code]

section \<open>The command\<close>

datatype level = FatalLevel | ErrorLevel | InfoLevel

datatype field = IntField int | StringField string

text \<open>A log line above debug level: its level, its fields and its message.\<close>

type_synonym log_entry = "level \<times> (string \<times> field) list \<times> string"

text \<open>
  How the process ends: \<open>Run\<close> returns, \<open>log.Fatal\<close> exits with status 1, or a panic
  unwinds.
\<close>

datatype ending = Returned | Exited | Panicked

record run_result =
  ending :: ending
  logs :: "log_entry list"
  pages :: "page_out list"

text \<open>
  The body of \<open>generateCmd.Run\<close>; \<open>None\<close> when it does not return. A failed \<open>View\<close> has not
  called the callback, so both sorts see the empty slice, which \<open>sort.Slice\<close> leaves alone,
  before line 98 ends the process.
\<close>

definition Run :: "env \<Rightarrow> run_result option" where
  "Run e =
     (case db e of
        Inl err \<Rightarrow> Some \<lparr>ending = Exited, logs = [(FatalLevel, [], err)], pages = []\<rparr>
      | Inr store \<Rightarrow>
          (case ascend e store ([], 0) of
             Inl err \<Rightarrow> Some \<lparr>ending = Exited, logs = [(FatalLevel, [], err)], pages = []\<rparr>
           | Inr loaded \<Rightarrow>
               (let screenshotEntries = sort_entries e (fst loaded);
                    errorsIgnored = snd loaded
                in if int (length screenshotEntries) \<le> 0 then
                     Some \<lparr>ending = Returned,
                           logs = [(ErrorLevel,
                                    [(''count'', IntField (int (length screenshotEntries)))],
                                    ''No screenshot entries exist to create a report'')],
                           pages = []\<rparr>
                   else
                     (case template e of
                        Inl err \<Rightarrow>
                          Some \<lparr>ending = Exited,
                                logs = [(FatalLevel, [(''err'', StringField err)],
                                         ''Failed to parse template'')],
                                pages = []\<rparr>
                      | Inr exec \<Rightarrow>
                          (case index_loop (int (length screenshotEntries)) (pageSize e) 0 ([], 0) of
                             None \<Rightarrow> None
                           | Some indexed \<Rightarrow>
                               (case render_loop e exec (map (display e) screenshotEntries)
                                       (fst indexed) (snd indexed) errorsIgnored 0 0 [] of
                                  None \<Rightarrow> None
                                | Some rendered \<Rightarrow>
                                    Some (if snd rendered
                                          then \<lparr>ending = Panicked, logs = [], pages = fst rendered\<rparr>
                                          else \<lparr>ending = Returned,
                                                logs = [(InfoLevel,
                                                         [(''report-file'', StringField ''page-0.html'')],
                                                         ''Report generated'')],
                                                pages = fst rendered\<rparr>)))))))"

section \<open>What \<open>sort.Slice\<close> promises\<close>

text \<open>
  For a comparison by a key, \<open>sort.Slice\<close> leaves the same elements in the slice, in
  ascending order of the key. Its documentation adds that the sort is not guaranteed to be
  stable. Of \<open>strings.ToLower\<close> the proofs use only that it maps the empty string, and no
  other string, to the empty string.
\<close>

definition sorts ::
  "((HTTResponse \<Rightarrow> HTTResponse \<Rightarrow> bool) \<Rightarrow> HTTResponse list \<Rightarrow> HTTResponse list) \<Rightarrow> bool" where
  "sorts srt =
     (\<forall>key :: HTTResponse \<Rightarrow> string. \<forall>xs.
        mset (srt (\<lambda>a b. key a < key b) xs) = mset xs \<and>
        sorted (map key (srt (\<lambda>a b. key a < key b) xs)))"

definition keeps_empty :: "(string \<Rightarrow> string) \<Rightarrow> bool" where
  "keeps_empty lower = (\<forall>s. (lower s = []) = (s = []))"

section \<open>The pages in closed form\<close>

text \<open>
  For stating what the two loops compute: the number of pages for \<open>n\<close> entries and a
  positive page size, and the page of number \<open>j\<close>.
\<close>

definition page_total :: "nat \<Rightarrow> int \<Rightarrow> nat" where
  "page_total n psize = (n + nat psize - 1) div nat psize"

definition page_number ::
  "env \<Rightarrow> (TemplateData \<Rightarrow> string \<times> bool) \<Rightarrow> HTTResponse list \<Rightarrow> string \<Rightarrow> int \<Rightarrow> nat
     \<Rightarrow> page_out" where
  "page_number e exec entries pageIndex errorsIgnored j =
     (let total = page_total (length entries) (pageSize e);
          templateData =
            \<lparr>ScreenShots = take (nat (pageSize e)) (drop (j * nat (pageSize e)) entries),
             PageIndex = pageIndex, PageCount = int (length entries),
             PageNext = next_link (int ((j + 1) mod total)),
             PagePrev = prev_link (int ((j + total - 1) mod total)),
             PageNumber = int j, ErrorsIgnored = errorsIgnored\<rparr>
      in \<lparr>page_data = templateData, execute_failed = snd (exec templateData),
          file_name = page_file (int j), file_bytes = fst (exec templateData),
          write_failed = write_file e (page_file (int j)) (fst (exec templateData))\<rparr>)"

section \<open>Concrete worlds for the examples\<close>

definition header :: "string \<Rightarrow> string \<Rightarrow> HTTPHeader" where
  "header k v = \<lparr>Key = k, Value = v\<rparr>"

definition shot :: "string \<Rightarrow> int \<Rightarrow> string \<Rightarrow> string \<Rightarrow> HTTPHeader list \<Rightarrow> HTTResponse" where
  "shot url code title file hs =
     \<lparr>URL = url, FinalURL = url, ResponseCode = code, PageTitle = title,
      ScreenshotFile = file, Headers = hs\<rparr>"

text \<open>A decoder given by a table from stored values to records; other values do not decode.\<close>

definition decode_table :: "(string \<times> HTTResponse) list \<Rightarrow> string \<Rightarrow> string + HTTResponse" where
  "decode_table table v =
     (case map_of table v of None \<Rightarrow> Inl ''unexpected end of JSON input'' | Some r \<Rightarrow> Inr r)"

text \<open>
  A sorting routine that does what \<open>sort.Slice\<close> promises: it moves each element left past
  the strictly greater ones, as an insertion sort does.
\<close>

fun insert_go :: "('a \<Rightarrow> 'a \<Rightarrow> bool) \<Rightarrow> 'a list \<Rightarrow> 'a \<Rightarrow> 'a list" where
  "insert_go lt [] x = [x]"
| "insert_go lt (y # ys) x = (if lt x y then x # y # ys else y # insert_go lt ys x)"

definition insertion_sort :: "('a \<Rightarrow> 'a \<Rightarrow> bool) \<Rightarrow> 'a list \<Rightarrow> 'a list" where
  "insertion_sort lt xs = foldl (insert_go lt) [] xs"

text \<open>
  Case folding for the examples, whose strings are ASCII: there \<open>strings.ToLower\<close> maps
  \<open>A..Z\<close> to \<open>a..z\<close> and leaves every other byte alone.
\<close>

definition lower_byte :: "char \<Rightarrow> char" where
  "lower_byte c =
     (if CHR ''A'' \<le> c \<and> c \<le> CHR ''Z'' then char_of (of_char c + (32::nat)) else c)"

definition ascii_lower :: "string \<Rightarrow> string" where
  "ascii_lower s = map lower_byte s"

text \<open>A template that prints the URLs of its page and never fails.\<close>

definition echo_template :: "TemplateData \<Rightarrow> string \<times> bool" where
  "echo_template td = (concat (map URL (ScreenShots td)), False)"

text \<open>
  A world with the given page size, flag, stored records (each stored under its key, the
  value being the key again) and file system, where every write succeeds.
\<close>

definition world ::
  "int \<Rightarrow> bool \<Rightarrow> (string \<times> HTTResponse) list \<Rightarrow> (string \<Rightarrow> stat_result) \<Rightarrow> env" where
  "world psize incl table statf =
     \<lparr>pageSize = psize, includeErrors = incl, PlaceHolderImage = ''placeholder.png'',
      db = Inr (map (\<lambda>kv. (fst kv, fst kv)) table), unmarshal = decode_table table,
      stat = statf, sort_slice = insertion_sort, ToLower = ascii_lower,
      template = Inr echo_template,
      write_file = (\<lambda>name bytes. False)\<rparr>"

definition three :: "(string \<times> HTTResponse) list" where
  "three = [(''k1'', shot ''http://a'' 200 ''Alpha'' ''/s/a.png'' []),
            (''k2'', shot ''http://b'' 404 ''Beta'' ''/s/b.png'' []),
            (''k3'', shot ''http://c'' 301 '''' ''/s/c.png'' [])]"

definition one_page :: "(string \<times> HTTResponse) list" where
  "one_page =
     [(''k1'', shot ''http://a'' 200 ''Alpha'' ''/s/a.png''
                 [header ''Server'' ''nginx'', header ''Date'' ''today''])]"

text \<open>A file system on which every probe fails with an error other than absence.\<close>

definition denied :: "string \<Rightarrow> stat_result" where
  "denied path = StatOtherError"

text \<open>
  The secondary key in the words of the specification: the value of the first header whose
  key is \<open>server\<close> up to case, and the empty string when there is none.
\<close>

definition first_server :: "env \<Rightarrow> HTTResponse \<Rightarrow> string" where
  "first_server e r =
     (case filter (\<lambda>h. ToLower e (Key h) = ''server'') (Headers r) of
        [] \<Rightarrow> [] | h # rest \<Rightarrow> Value h)"

definition zeus :: HTTResponse where
  "zeus = shot ''http://z'' 200 [] ''/s/z.png'' [header ''Server'' ''Apache'', header ''server'' ''Zeus'']"

definition nginx :: HTTResponse where
  "nginx = shot ''http://n'' 200 [] ''/s/n.png'' [header ''Server'' ''nginx'']"

definition apache :: HTTResponse where
  "apache = shot ''http://p'' 200 [] ''/s/p.png'' [header ''SERVER'' ''apache'']"

definition home :: HTTResponse where
  "home = shot ''http://h'' 200 ''Home'' ''/s/h.png'' []"

definition five :: "HTTResponse list" where
  "five = map (\<lambda>u. shot u 200 u ''/s/x.png'' []) [''a'', ''b'', ''c'', ''d'', ''e'']"

definition three_404 :: "(string \<times> HTTResponse) list" where
  "three_404 = [(''k1'', shot ''http://a'' 404 ''Alpha'' ''/s/a.png'' []),
                (''k2'', shot ''http://b'' 404 ''Beta'' ''/s/b.png'' []),
                (''k3'', shot ''http://c'' 404 [] ''/s/c.png'' [])]"

definition two_ok :: "(string \<times> HTTResponse) list" where
  "two_ok = [(''k1'', shot ''http://a'' 200 ''Alpha'' ''/s/a.png'' [header ''Date'' ''today'']),
             (''k2'', shot ''http://b'' 200 ''Beta'' ''/s/b.png'' [header ''Server'' ''nginx''])]"

text \<open>
  A world of one record per page where the template fails on every page, having written
  nothing, and the first page cannot be written.
\<close>

definition failing_world :: env where
  "failing_world =
     (world 1 False two_ok (\<lambda>p. StatOk))
       \<lparr>template := Inr (\<lambda>td. ([], True)),
        write_file := (\<lambda>name bytes. name = ''./page-0.html'')\<rparr>"

text \<open>A file system on which only the first screenshot is missing.\<close>

definition half_missing :: "string \<Rightarrow> stat_result" where
  "half_missing path = (if path = ''/s/a.png'' then StatNotExist else StatOk)"

text \<open>
  A file system on which the first screenshot is missing, the probe of the second fails
  with another error, and every other file is there.
\<close>

definition mixed :: "string \<Rightarrow> stat_result" where
  "mixed path =
     (if path = ''/s/a.png'' then StatNotExist
      else if path = ''/s/b.png'' then StatOtherError else StatOk)"

section \<open>\<open>sort.Slice\<close> of the Go library\<close>

text \<open>
  \<open>sort.Slice\<close> is not part of the repository. What follows is the routine of the Go
  standard library from release 1.19 on (\<open>sort/slice.go\<close>, \<open>sort/zsortfunc.go\<close>): a
  pattern-defeating quicksort that sorts in place through \<open>Less(i, j)\<close> and \<open>Swap(i, j)\<close>
  on indices. The slice is a list, an index an \<open>int\<close> as in Go; the library never
  indexes outside \<open>a \<le> i < b\<close>, so no index is out of range when \<open>0 \<le> a\<close> and
  \<open>b \<le> len\<close>. In both calls of \<open>generate.go\<close> the comparison reads the elements of the
  slice being sorted at the two indices, which is \<open>Less\<close> with the comparison of two
  elements as \<open>lt\<close>.
\<close>

definition Less :: "('a \<Rightarrow> 'a \<Rightarrow> bool) \<Rightarrow> 'a list \<Rightarrow> int \<Rightarrow> int \<Rightarrow> bool" where
  "Less lt data i j = lt (data ! nat i) (data ! nat j)"

definition Swap :: "'a list \<Rightarrow> int \<Rightarrow> int \<Rightarrow> 'a list" where
  "Swap data i j = data[nat i := data ! nat j, nat j := data ! nat i]"

text \<open>\<open>insertionSort_func\<close>: the inner loop moves \<open>data[j]\<close> left while it is less than its
  left neighbour, the outer loop does so for \<open>i = a + 1, \<dots>, b - 1\<close>.\<close>

function insertionSort_inner :: "('a \<Rightarrow> 'a \<Rightarrow> bool) \<Rightarrow> 'a list \<Rightarrow> int \<Rightarrow> int \<Rightarrow> 'a list" where
  "insertionSort_inner lt data a j =
     (if j > a \<and> Less lt data j (j - 1)
      then insertionSort_inner lt (Swap data j (j - 1)) a (j - 1) else data)"
  by pat_completeness auto
termination by (relation "measure (\<lambda>(lt, data, a, j). nat (j - a))") auto

function insertionSort_outer :: "('a \<Rightarrow> 'a \<Rightarrow> bool) \<Rightarrow> 'a list \<Rightarrow> int \<Rightarrow> int \<Rightarrow> int \<Rightarrow> 'a list" where
  "insertionSort_outer lt data a b i =
     (if i < b then insertionSort_outer lt (insertionSort_inner lt data a i) a b (i + 1) else data)"
  by pat_completeness auto
termination by (relation "measure (\<lambda>(lt, data, a, b, i). nat (b - i))") auto


text \<open>
  \<open>siftDown_func\<close> and \<open>heapSort_func\<close>. The positions \<open>lo\<close>, \<open>hi\<close> in the heap are
  never negative and are natural numbers here; \<open>(hi - 1) / 2\<close> truncates toward zero.
\<close>

function siftDown_func :: "('a \<Rightarrow> 'a \<Rightarrow> bool) \<Rightarrow> 'a list \<Rightarrow> nat \<Rightarrow> nat \<Rightarrow> int \<Rightarrow> 'a list" where
  "siftDown_func lt data lo hi first =
     (let root = lo; child = 2 * root + 1
      in if child \<ge> hi then data
         else
           (let child = (if child + 1 < hi \<and>
                            Less lt data (first + int child) (first + int child + 1)
                         then child + 1 else child)
            in if \<not> Less lt data (first + int root) (first + int child) then data
               else siftDown_func lt (Swap data (first + int root) (first + int child)) child hi first))"
  by pat_completeness auto
termination
  by (relation "measure (\<lambda>(lt, data, lo, hi, first). hi - lo)") (auto simp: Let_def split: if_splits)

function heapSort_build :: "('a \<Rightarrow> 'a \<Rightarrow> bool) \<Rightarrow> 'a list \<Rightarrow> int \<Rightarrow> int \<Rightarrow> int \<Rightarrow> 'a list" where
  "heapSort_build lt data hi first i =
     (if i \<ge> 0
      then heapSort_build lt (siftDown_func lt data (nat i) (nat hi) first) hi first (i - 1)
      else data)"
  by pat_completeness auto
termination by (relation "measure (\<lambda>(lt, data, hi, first, i). nat (i + 1))") auto

function heapSort_pop :: "('a \<Rightarrow> 'a \<Rightarrow> bool) \<Rightarrow> 'a list \<Rightarrow> int \<Rightarrow> int \<Rightarrow> 'a list" where
  "heapSort_pop lt data first i =
     (if i \<ge> 0
      then heapSort_pop lt (siftDown_func lt (Swap data first (first + i)) 0 (nat i) first) first (i - 1)
      else data)"
  by pat_completeness auto
termination by (relation "measure (\<lambda>(lt, data, first, i). nat (i + 1))") auto



text \<open>
  The two scans of the partitioning loops: \<open>for i <= j && ok(i) { i++ }\<close> and
  \<open>for i <= j && ok(j) { j-- }\<close>.
\<close>

function scan_up :: "(int \<Rightarrow> bool) \<Rightarrow> int \<Rightarrow> int \<Rightarrow> int" where
  "scan_up ok i j = (if i \<le> j \<and> ok i then scan_up ok (i + 1) j else i)"
  by pat_completeness auto
termination by (relation "measure (\<lambda>(ok, i, j). nat (j + 1 - i))") auto

function scan_down :: "(int \<Rightarrow> bool) \<Rightarrow> int \<Rightarrow> int \<Rightarrow> int" where
  "scan_down ok i j = (if i \<le> j \<and> ok j then scan_down ok i (j - 1) else j)"
  by pat_completeness auto
termination by (relation "measure (\<lambda>(ok, i, j). nat (j + 1 - i))") auto









function reverseRange_loop :: "'a list \<Rightarrow> int \<Rightarrow> int \<Rightarrow> 'a list" where
  "reverseRange_loop data i j =
     (if i < j then reverseRange_loop (Swap data i j) (i + 1) (j - 1) else data)"
  by pat_completeness auto
termination by (relation "measure (\<lambda>(data, i, j). nat (j - i))") auto


text \<open>
  \<open>partialInsertionSort_func\<close> gives up at the first pair out of order on slices shorter
  than \<open>50\<close>, and after five such pairs on longer ones.
\<close>

function shift_left :: "('a \<Rightarrow> 'a \<Rightarrow> bool) \<Rightarrow> 'a list \<Rightarrow> int \<Rightarrow> 'a list" where
  "shift_left lt data j =
     (if j \<ge> 1 then
        (if \<not> Less lt data j (j - 1) then data
         else shift_left lt (Swap data j (j - 1)) (j - 1))
      else data)"
  by pat_completeness auto
termination by (relation "measure (\<lambda>(lt, data, j). nat j)") auto

function shift_right :: "('a \<Rightarrow> 'a \<Rightarrow> bool) \<Rightarrow> 'a list \<Rightarrow> int \<Rightarrow> int \<Rightarrow> 'a list" where
  "shift_right lt data j b =
     (if j < b then
        (if \<not> Less lt data j (j - 1) then data
         else shift_right lt (Swap data j (j - 1)) (j + 1) b)
      else data)"
  by pat_completeness auto
termination by (relation "measure (\<lambda>(lt, data, j, b). nat (b - j))") auto

function partialInsertionSort_loop ::
  "('a \<Rightarrow> 'a \<Rightarrow> bool) \<Rightarrow> 'a list \<Rightarrow> int \<Rightarrow> int \<Rightarrow> int \<Rightarrow> int \<Rightarrow> 'a list \<times> bool" where
  "partialInsertionSort_loop lt data a b i j =
     (if j < 5 then
        (let i = scan_up (\<lambda>i. \<not> Less lt data i (i - 1)) i (b - 1)
         in if i = b then (data, True)
            else if b - a < 50 then (data, False)
            else
              (let data = Swap data i (i - 1);
                   data = (if i - a \<ge> 2 then shift_left lt data (i - 1) else data);
                   data = (if b - i \<ge> 2 then shift_right lt data (i + 1) b else data)
               in partialInsertionSort_loop lt data a b i (j + 1)))
      else (data, False))"
  by pat_completeness auto
termination by (relation "measure (\<lambda>(lt, data, a, b, i, j). nat (5 - j))") auto



function breakPatterns_loop ::
  "(nat \<Rightarrow> nat) \<Rightarrow> 'a list \<Rightarrow> int \<Rightarrow> int \<Rightarrow> nat \<Rightarrow> int \<Rightarrow> nat \<Rightarrow> int \<Rightarrow> 'a list" where
  "breakPatterns_loop Next data a length0 modulus idx random i =
     (if i < 3 then
        (let random = Next random;
             other = int (random mod modulus);
             other = (if other \<ge> length0 then other - length0 else other)
         in breakPatterns_loop Next (Swap data (idx - 1 + i) (a + other)) a length0 modulus idx
              random (i + 1))
      else data)"
  by pat_completeness auto
termination
  by (relation "measure (\<lambda>(Next, data, a, length0, modulus, idx, random, i). nat (3 - i))") auto




text \<open>The recursive equations are unfolded by hand in the proofs.\<close>

declare insertionSort_inner.simps [simp del]
  insertionSort_outer.simps [simp del]
  siftDown_func.simps [simp del]
  heapSort_build.simps [simp del]
  heapSort_pop.simps [simp del]
  scan_up.simps [simp del]
  scan_down.simps [simp del]
  reverseRange_loop.simps [simp del]
  shift_left.simps [simp del]
  shift_right.simps [simp del]
  partialInsertionSort_loop.simps [simp del]
  breakPatterns_loop.simps [simp del]





section \<open>The loader and the filter\<close>

lemma ascend_load:
  "ascend e store st =
     (case load_all e store of
        Inl err \<Rightarrow> Inl err
      | Inr ds \<Rightarrow>
          Inr (fst st @ (if includeErrors e then ds else filter successful ds),
               snd st + (if includeErrors e then 0
                         else int (length (filter (\<lambda>d. \<not> successful d) ds)))))"
proof (induction store arbitrary: st)
  case Nil
  then show ?case by simp
next
  case (Cons kv kvs)
  show ?case
  proof (cases "unmarshal e (snd kv)")
    case (Inl err)
    then show ?thesis by (simp add: callback_def)
  next
    case (Inr data0)
    then show ?thesis
      by (cases "load_all e kvs") (simp_all add: callback_def Cons.IH successful_def Let_def)
  qed
qed

lemma load_all_length: "load_all e store = Inr ds \<Longrightarrow> length ds = length store"
  by (induction store arbitrary: ds) (auto split: sum.splits)

text \<open>
  C2. Whenever the scan ends without a decoding failure, all values were decoded, one
  record per stored entry. Without \<open>includeErrors\<close> the kept list is the loaded list
  filtered by \<open>200 \<le> ResponseCode < 300\<close> (so a loaded record is kept exactly when its code
  is in that range, in scan order), and the ignored count is the number of loaded records
  outside the range. With \<open>includeErrors\<close> the kept list is the whole loaded list, as long
  as the input, and the ignored count is \<open>0\<close>.
\<close>

theorem filter_law:
  assumes "ascend e store ([], 0) = Inr (kept, ignoredCount)"
  shows "\<exists>loaded. load_all e store = Inr loaded \<and> length loaded = length store \<and>
           (if includeErrors e
            then kept = loaded \<and> length kept = length store \<and> ignoredCount = 0
            else kept = filter (\<lambda>r. 200 \<le> ResponseCode r \<and> ResponseCode r < 300) loaded \<and>
                 ignoredCount =
                   int (length (filter (\<lambda>r. \<not> (200 \<le> ResponseCode r \<and> ResponseCode r < 300)) loaded)))"
proof (cases "load_all e store")
  case (Inl err)
  with assms show ?thesis by (simp add: ascend_load)
next
  case (Inr loaded)
  have len: "length loaded = length store" using Inr by (rule load_all_length)
  have s: "successful = (\<lambda>r. 200 \<le> ResponseCode r \<and> ResponseCode r < 300)"
    by (rule ext) (simp add: successful_def)
  from assms Inr have
    "kept = (if includeErrors e then loaded
             else filter (\<lambda>r. 200 \<le> ResponseCode r \<and> ResponseCode r < 300) loaded)"
    "ignoredCount =
       (if includeErrors e then 0
        else int (length (filter (\<lambda>r. \<not> (200 \<le> ResponseCode r \<and> ResponseCode r < 300)) loaded)))"
    unfolding ascend_load s by simp_all
  with Inr len show ?thesis by simp
qed

theorem filter_law_witness:
  "ascend (world 2 False three (\<lambda>p. StatOk)) (map (\<lambda>kv. (fst kv, fst kv)) three) ([], 0)
     = Inr ([shot ''http://a'' 200 ''Alpha'' ''/s/a.png'' []], 2) \<and>
   (\<exists>loaded. load_all (world 2 False three (\<lambda>p. StatOk)) (map (\<lambda>kv. (fst kv, fst kv)) three)
        = Inr loaded \<and>
      [shot ''http://a'' 200 ''Alpha'' ''/s/a.png'' []]
        = filter (\<lambda>r. 200 \<le> ResponseCode r \<and> ResponseCode r < 300) loaded \<and>
      (2::int) = int (length (filter (\<lambda>r. \<not> (200 \<le> ResponseCode r \<and> ResponseCode r < 300)) loaded)))"
proof -
  have h: "ascend (world 2 False three (\<lambda>p. StatOk)) (map (\<lambda>kv. (fst kv, fst kv)) three) ([], 0)
     = Inr ([shot ''http://a'' 200 ''Alpha'' ''/s/a.png'' []], 2)"
    by code_simp
  have f: "\<not> includeErrors (world 2 False three (\<lambda>p. StatOk))" by (simp add: world_def)
  from filter_law [OF h] f show ?thesis using h by auto
qed

lemma load_all_fails_iff:
  "(\<exists>err. load_all e store = Inl err) =
     (\<exists>kv \<in> set store. \<exists>err. unmarshal e (snd kv) = Inl err)"
  by (induction store) (auto split: sum.splits)

lemma ascend_fails_iff:
  "(\<exists>err. ascend e store st = Inl err) =
     (\<exists>kv \<in> set store. \<exists>err. unmarshal e (snd kv) = Inl err)"
  unfolding load_all_fails_iff [symmetric] ascend_load by (cases "load_all e store") simp_all

section \<open>The example sorting routine meets the contract\<close>

lemma mset_insert_go: "mset (insert_go lt ys x) = add_mset x (mset ys)"
  by (induction ys) simp_all

lemma set_insert_go: "set (insert_go lt ys x) = insert x (set ys)"
  by (induction ys) auto

lemma sorted_insert_go:
  fixes key :: "'a \<Rightarrow> string"
  assumes "sorted (map key ys)"
  shows "sorted (map key (insert_go (\<lambda>a b. key a < key b) ys x))"
  using assms by (induction ys) (auto simp: set_insert_go)

lemma filter_insert_go:
  fixes key :: "'a \<Rightarrow> string"
  assumes "sorted (map key ys)"
  shows "filter (\<lambda>r. key r = k) (insert_go (\<lambda>a b. key a < key b) ys x)
           = filter (\<lambda>r. key r = k) ys @ (if key x = k then [x] else [])"
  using assms
proof (induction ys)
  case Nil
  then show ?case by simp
next
  case (Cons y ys)
  show ?case
  proof (cases "key x < key y")
    case True
    then have "\<forall>r \<in> set (y # ys). key r \<noteq> key x"
      using Cons.prems by auto
    then have "filter (\<lambda>r. key r = key x) (y # ys) = []"
      by (simp add: filter_empty_conv)
    with True show ?thesis by auto
  next
    case False
    with Cons show ?thesis by simp
  qed
qed

lemma foldl_insert_go:
  fixes key :: "'a \<Rightarrow> string"
  assumes "sorted (map key acc)"
  shows "mset (foldl (insert_go (\<lambda>a b. key a < key b)) acc xs) = mset acc + mset xs \<and>
         sorted (map key (foldl (insert_go (\<lambda>a b. key a < key b)) acc xs)) \<and>
         filter (\<lambda>r. key r = k) (foldl (insert_go (\<lambda>a b. key a < key b)) acc xs)
           = filter (\<lambda>r. key r = k) acc @ filter (\<lambda>r. key r = k) xs"
  using assms
proof (induction xs arbitrary: acc)
  case Nil
  then show ?case by simp
next
  case (Cons x xs)
  have s: "sorted (map key (insert_go (\<lambda>a b. key a < key b) acc x))"
    using Cons.prems by (rule sorted_insert_go)
  show ?case
    using Cons.IH [OF s] by (simp add: mset_insert_go filter_insert_go [OF Cons.prems])
qed

lemma sorts_insertion_sort: "sorts insertion_sort"
  unfolding sorts_def insertion_sort_def
proof (intro allI)
  fix key :: "HTTResponse \<Rightarrow> string" and xs
  show "mset (foldl (insert_go (\<lambda>a b. key a < key b)) [] xs) = mset xs \<and>
        sorted (map key (foldl (insert_go (\<lambda>a b. key a < key b)) [] xs))"
    using foldl_insert_go [of key "[]" xs] by simp
qed

lemma keeps_empty_ascii_lower: "keeps_empty ascii_lower"
  by (simp add: keeps_empty_def ascii_lower_def)

section \<open>The two-level sort\<close>

lemma sortsD:
  assumes "sorts srt"
  shows "mset (srt (title_less e) xs) = mset xs"
    and "sorted (map (\<lambda>r. ToLower e (PageTitle r)) (srt (title_less e) xs))"
    and "mset (srt (server_less e) xs) = mset xs"
    and "sorted (map (server_of e) (srt (server_less e) xs))"
proof -
  have t: "title_less e = (\<lambda>a b. ToLower e (PageTitle a) < ToLower e (PageTitle b))"
    by (intro ext) (simp add: title_less_def)
  have s: "server_less e = (\<lambda>a b. server_of e a < server_of e b)"
    by (intro ext) (simp add: server_less_def)
  from assms have
    a: "\<And>key :: HTTResponse \<Rightarrow> string. mset (srt (\<lambda>a b. key a < key b) xs) = mset xs \<and>
        sorted (map key (srt (\<lambda>a b. key a < key b) xs))"
    unfolding sorts_def by blast
  from a [of "\<lambda>r. ToLower e (PageTitle r)"] show "mset (srt (title_less e) xs) = mset xs"
    and "sorted (map (\<lambda>r. ToLower e (PageTitle r)) (srt (title_less e) xs))" unfolding t by simp_all
  from a [of "server_of e"] show "mset (srt (server_less e) xs) = mset xs"
    and "sorted (map (server_of e) (srt (server_less e) xs))" unfolding s by simp_all
qed

lemma scan_titled_none: "\<forall>r \<in> set xs. PageTitle r = [] \<Longrightarrow> scan_titled xs i = 0"
  by (induction xs arbitrary: i) simp_all

lemma scan_titled_some:
  "\<exists>r \<in> set xs. PageTitle r \<noteq> [] \<Longrightarrow>
   scan_titled xs i = i + length (takeWhile (\<lambda>r. PageTitle r = []) xs)"
  by (induction xs arbitrary: i) auto

lemma titled_after_first:
  assumes "keeps_empty (ToLower e)" and "sorted (map (\<lambda>r. ToLower e (PageTitle r)) ys)"
  shows "\<forall>r \<in> set (dropWhile (\<lambda>r. PageTitle r = []) ys). PageTitle r \<noteq> []"
  using assms(2)
proof (induction ys)
  case Nil
  then show ?case by simp
next
  case (Cons y ys)
  have empty: "(ToLower e s = []) = (s = [])" for s
    using assms(1) by (simp add: keeps_empty_def)
  have tail: "sorted (map (\<lambda>r. ToLower e (PageTitle r)) ys)"
    using Cons.prems by simp
  have le: "\<forall>r \<in> set ys. ToLower e (PageTitle y) \<le> ToLower e (PageTitle r)"
    using Cons.prems by simp
  show ?case
  proof (cases "PageTitle y = []")
    case True
    then have "dropWhile (\<lambda>r. PageTitle r = []) (y # ys) = dropWhile (\<lambda>r. PageTitle r = []) ys"
      by simp
    then show ?thesis using Cons.IH [OF tail] by (simp only:)
  next
    case False
    then have y: "ToLower e (PageTitle y) \<noteq> []" by (simp add: empty)
    have "\<forall>r \<in> set ys. PageTitle r \<noteq> []"
    proof (intro ballI notI)
      fix r
      assume r: "r \<in> set ys" "PageTitle r = []"
      from le r(1) have "ToLower e (PageTitle y) \<le> ToLower e (PageTitle r)" by (rule bspec)
      moreover have "ToLower e [] = []" using empty [of "[]"] by simp
      ultimately have "ToLower e (PageTitle y) \<le> []" using r(2) by simp
      with y show False by simp
    qed
    moreover have "dropWhile (\<lambda>r. PageTitle r = []) (y # ys) = y # ys"
      using False by simp
    ultimately show ?thesis using False by (simp only: set_simps ball_simps) simp
  qed
qed

lemma filter_is_takeWhile:
  assumes "\<forall>r \<in> set (dropWhile P ys). \<not> P r"
  shows "filter P ys = takeWhile P ys \<and> filter (\<lambda>r. \<not> P r) ys = dropWhile P ys"
proof -
  have t: "filter P (takeWhile P ys) = takeWhile P ys"
    unfolding filter_id_conv by (blast dest: set_takeWhileD)
  have d: "filter P (dropWhile P ys) = []"
    unfolding filter_empty_conv using assms by blast
  have t': "filter (\<lambda>r. \<not> P r) (takeWhile P ys) = []"
    unfolding filter_empty_conv by (blast dest: set_takeWhileD)
  have d': "filter (\<lambda>r. \<not> P r) (dropWhile P ys) = dropWhile P ys"
    unfolding filter_id_conv using assms by blast
  have "filter P ys = filter P (takeWhile P ys @ dropWhile P ys)"
    by (simp only: takeWhile_dropWhile_id)
  also have "\<dots> = takeWhile P ys" by (simp only: filter_append t d append_Nil2)
  finally have one: "filter P ys = takeWhile P ys" .
  have "filter (\<lambda>r. \<not> P r) ys = filter (\<lambda>r. \<not> P r) (takeWhile P ys @ dropWhile P ys)"
    by (simp only: takeWhile_dropWhile_id)
  also have "\<dots> = dropWhile P ys" by (simp only: filter_append t' d' append_Nil)
  finally have two: "filter (\<lambda>r. \<not> P r) ys = dropWhile P ys" .
  from one two show ?thesis by (rule conjI)
qed

text \<open>The shape of the sorted list when some entry has a title.\<close>

lemma sort_entries_titled:
  assumes "sorts (sort_slice e)" and "\<exists>r \<in> set kept. PageTitle r \<noteq> []"
    and "keeps_empty (ToLower e)"
  shows "sort_entries e kept =
           sort_slice e (server_less e) (filter (\<lambda>r. PageTitle r = []) (sort_slice e (title_less e) kept))
             @ filter (\<lambda>r. PageTitle r \<noteq> []) (sort_slice e (title_less e) kept)"
proof -
  let ?ys = "sort_slice e (title_less e) kept"
  let ?U = "\<lambda>r. PageTitle r = []"
  have "set ?ys = set kept" using sortsD(1) [OF assms(1)] by (rule mset_eq_setD)
  with assms(2) have ex: "\<exists>r \<in> set ?ys. PageTitle r \<noteq> []" by simp
  have k: "lastSortIndex ?ys = length (takeWhile ?U ?ys)"
    using scan_titled_some [OF ex, of 0] by (simp add: lastSortIndex_def)
  have "\<forall>r \<in> set (dropWhile ?U ?ys). \<not> ?U r"
    using titled_after_first [OF assms(3) sortsD(2) [OF assms(1)]] .
  note fw = filter_is_takeWhile [OF this]
  have f: "filter ?U ?ys = takeWhile ?U ?ys" "filter (\<lambda>r. \<not> ?U r) ?ys = dropWhile ?U ?ys"
    using fw by blast+
  have "take (length (takeWhile ?U ?ys)) ?ys = takeWhile ?U ?ys"
    by (rule takeWhile_eq_take [symmetric])
  moreover have "drop (length (takeWhile ?U ?ys)) ?ys = dropWhile ?U ?ys"
    by (rule dropWhile_eq_drop [symmetric])
  ultimately show ?thesis
    unfolding sort_entries_def Let_def k f by simp
qed

text \<open>The shape of the sorted list when no entry has a title.\<close>

lemma sort_entries_untitled:
  assumes "sorts (sort_slice e)" and "\<forall>r \<in> set kept. PageTitle r = []"
  shows "lastSortIndex (sort_slice e (title_less e) kept) = 0"
    and "sort_entries e kept = sort_slice e (title_less e) kept"
proof -
  let ?ys = "sort_slice e (title_less e) kept"
  have "set ?ys = set kept" using sortsD(1) [OF assms(1)] by (rule mset_eq_setD)
  with assms(2) have "\<forall>r \<in> set ?ys. PageTitle r = []" by simp
  then show k: "lastSortIndex ?ys = 0" by (simp add: lastSortIndex_def scan_titled_none)
  have "mset (sort_slice e (server_less e) []) = mset []" using sortsD(3) [OF assms(1)] .
  then have "sort_slice e (server_less e) [] = []" by simp
  then show "sort_entries e kept = ?ys" by (simp add: sort_entries_def Let_def k)
qed

section \<open>Claims about the sort\<close>

lemma server_of_last:
  "server_of e r =
     (let hs = filter (\<lambda>h. ToLower e (Key h) = ''server'') (Headers r)
      in if hs = [] then [] else ToLower e (Value (last hs)))"
proof -
  have f: "foldl (\<lambda>server h. if ToLower e (Key h) = ''server'' then ToLower e (Value h) else server) [] hs
          = (if filter (\<lambda>h. ToLower e (Key h) = ''server'') hs = [] then []
             else ToLower e (Value (last (filter (\<lambda>h. ToLower e (Key h) = ''server'') hs))))" for hs
    by (induction hs rule: rev_induct) simp_all
  show ?thesis unfolding server_of_def Let_def by (rule f)
qed

lemma sorts_world: "sorts (sort_slice (world psize incl table statf))"
  by (simp add: world_def sorts_insertion_sort)

lemma keeps_empty_world: "keeps_empty (ToLower (world psize incl table statf))"
  by (simp add: world_def keeps_empty_ascii_lower)

text \<open>
  C10. When no kept record has a title (and \<open>sort.Slice\<close> does what it promises), the scan
  leaves \<open>lastSortIndex\<close> at \<open>0\<close>, the second sort is given the empty slice, and the result
  is the list as the first sort left it.
\<close>

theorem all_untitled_no_secondary_sort:
  assumes "sorts (sort_slice e)" and "\<forall>r \<in> set kept. PageTitle r = []"
  shows "lastSortIndex (sort_slice e (title_less e) kept) = 0 \<and>
         take (lastSortIndex (sort_slice e (title_less e) kept)) (sort_slice e (title_less e) kept) = [] \<and>
         sort_entries e kept = sort_slice e (title_less e) kept"
  using sort_entries_untitled [OF assms] by simp

theorem all_untitled_no_secondary_sort_witness:
  "lastSortIndex (sort_slice (world 40 False [] (\<lambda>p. StatOk)) (title_less (world 40 False [] (\<lambda>p. StatOk))) [nginx, apache]) = 0 \<and>
   sort_entries (world 40 False [] (\<lambda>p. StatOk)) [nginx, apache] = sort_slice (world 40 False [] (\<lambda>p. StatOk)) (title_less (world 40 False [] (\<lambda>p. StatOk))) [nginx, apache] \<and>
   sort_entries (world 40 False [] (\<lambda>p. StatOk)) [nginx, apache] = [nginx, apache]"
proof -
  have u: "\<forall>r \<in> set [nginx, apache]. PageTitle r = []"
    by (simp add: nginx_def apache_def shot_def)
  have b: "sort_slice (world 40 False [] (\<lambda>p. StatOk)) (title_less (world 40 False [] (\<lambda>p. StatOk))) [nginx, apache] = [nginx, apache]"
    by code_simp
  note a = all_untitled_no_secondary_sort [OF sorts_world u, of 40 False "[]" "\<lambda>p. StatOk"]
  from a have x: "lastSortIndex (sort_slice (world 40 False [] (\<lambda>p. StatOk)) (title_less (world 40 False [] (\<lambda>p. StatOk))) [nginx, apache]) = 0"
    by blast
  from a have y: "sort_entries (world 40 False [] (\<lambda>p. StatOk)) [nginx, apache]
      = sort_slice (world 40 False [] (\<lambda>p. StatOk)) (title_less (world 40 False [] (\<lambda>p. StatOk))) [nginx, apache]"
    by blast
  from y b have z: "sort_entries (world 40 False [] (\<lambda>p. StatOk)) [nginx, apache] = [nginx, apache]"
    by (rule trans)
  from x y z show ?thesis by blast
qed

text \<open>
  C3, as the claim states it, fails: the key is not the value of the first \<open>server\<close>
  header. Of two untitled records, the one whose first \<open>server\<close> header is \<open>Apache\<close> and
  whose last is \<open>Zeus\<close> is placed after the one with the header \<open>nginx\<close>.
\<close>

theorem first_header_counterexample:
  "PageTitle zeus = [] \<and> PageTitle nginx = [] \<and>
   ToLower (world 40 False [] (\<lambda>p. StatOk)) (first_server (world 40 False [] (\<lambda>p. StatOk)) zeus) < ToLower (world 40 False [] (\<lambda>p. StatOk)) (first_server (world 40 False [] (\<lambda>p. StatOk)) nginx) \<and>
   server_of (world 40 False [] (\<lambda>p. StatOk)) zeus = ''zeus'' \<and> server_of (world 40 False [] (\<lambda>p. StatOk)) nginx = ''nginx'' \<and>
   sort_entries (world 40 False [] (\<lambda>p. StatOk)) [zeus, nginx, home] = [nginx, zeus, home]"
  by code_simp

text \<open>
  C3, amended. When at least one kept record has a title (and \<open>sort.Slice\<close> does what it
  promises, and \<open>strings.ToLower\<close> maps only the empty string to the empty string), the
  sorted list begins with exactly the untitled records, followed by exactly the titled
  ones, and the untitled prefix is in ascending order of its key. The key of a record is
  the value, lower-cased by \<open>strings.ToLower\<close>, of the last header whose lower-cased key is
  \<open>server\<close>, and the empty string when there is none.
\<close>

theorem untitled_prefix_by_last_server:
  assumes "sorts (sort_slice e)" and "\<exists>r \<in> set kept. PageTitle r \<noteq> []"
    and "keeps_empty (ToLower e)"
  shows "mset (take (length (filter (\<lambda>r. PageTitle r = []) kept)) (sort_entries e kept))
           = mset (filter (\<lambda>r. PageTitle r = []) kept) \<and>
         mset (drop (length (filter (\<lambda>r. PageTitle r = []) kept)) (sort_entries e kept))
           = mset (filter (\<lambda>r. PageTitle r \<noteq> []) kept) \<and>
         sorted (map (server_of e)
           (take (length (filter (\<lambda>r. PageTitle r = []) kept)) (sort_entries e kept))) \<and>
         server_of e r =
           (let hs = filter (\<lambda>h. ToLower e (Key h) = ''server'') (Headers r)
            in if hs = [] then [] else ToLower e (Value (last hs)))"
proof -
  let ?ys = "sort_slice e (title_less e) kept"
  let ?A = "sort_slice e (server_less e) (filter (\<lambda>r. PageTitle r = []) ?ys)"
  let ?B = "filter (\<lambda>r. PageTitle r \<noteq> []) ?ys"
  let ?k = "length (filter (\<lambda>r. PageTitle r = []) kept)"
  have out: "sort_entries e kept = ?A @ ?B" using assms by (rule sort_entries_titled)
  have ys: "mset ?ys = mset kept" using sortsD(1) [OF assms(1)] .
  have A: "mset ?A = mset (filter (\<lambda>r. PageTitle r = []) ?ys)"
    using sortsD(3) [OF assms(1)] .
  also have "\<dots> = mset (filter (\<lambda>r. PageTitle r = []) kept)"
    by (simp only: mset_filter ys)
  finally have A': "mset ?A = mset (filter (\<lambda>r. PageTitle r = []) kept)" .
  then have "size (mset ?A) = size (mset (filter (\<lambda>r. PageTitle r = []) kept))" by (rule arg_cong)
  then have len: "length ?A = ?k" by (simp only: size_mset)
  have B: "mset ?B = mset (filter (\<lambda>r. PageTitle r \<noteq> []) kept)"
    by (simp only: mset_filter ys)
  have tk: "take ?k (sort_entries e kept) = ?A" unfolding out using len by simp
  have dr: "drop ?k (sort_entries e kept) = ?B" unfolding out using len by simp
  have srt: "sorted (map (server_of e) ?A)" using sortsD(4) [OF assms(1)] .
  show ?thesis unfolding tk dr using A' B srt server_of_last by blast
qed

theorem untitled_prefix_by_last_server_witness:
  "sort_entries (world 40 False [] (\<lambda>p. StatOk)) [nginx, apache, home] = [apache, nginx, home] \<and>
   sorted (map (server_of (world 40 False [] (\<lambda>p. StatOk)))
     (take (length (filter (\<lambda>r. PageTitle r = []) [nginx, apache, home]))
        (sort_entries (world 40 False [] (\<lambda>p. StatOk)) [nginx, apache, home]))) \<and>
   mset (take (length (filter (\<lambda>r. PageTitle r = []) [nginx, apache, home]))
           (sort_entries (world 40 False [] (\<lambda>p. StatOk)) [nginx, apache, home]))
     = mset (filter (\<lambda>r. PageTitle r = []) [nginx, apache, home])"
proof -
  have t: "\<exists>r \<in> set [nginx, apache, home]. PageTitle r \<noteq> []"
    by (simp add: home_def shot_def)
  have "sort_entries (world 40 False [] (\<lambda>p. StatOk)) [nginx, apache, home] = [apache, nginx, home]"
    by code_simp
  with untitled_prefix_by_last_server [OF sorts_world t keeps_empty_world, of 40 False "[]" "\<lambda>p. StatOk" home]
  show ?thesis by blast
qed

section \<open>The library sort terminates\<close>













section \<open>Short slices: the insertion sort keeps the order of equal keys\<close>








section \<open>Claims about the order of equal keys\<close>






section \<open>The two page loops\<close>

lemma below_total: "0 < p \<Longrightarrow> k < (n + p - 1) div p \<longleftrightarrow> k * p < (n::nat)"
proof -
  assume p: "0 < p"
  have "k < (n + p - 1) div p \<longleftrightarrow> Suc k \<le> (n + p - 1) div p" by (simp add: Suc_le_eq)
  also have "\<dots> \<longleftrightarrow> Suc k * p \<le> n + p - 1" using p by (simp add: less_eq_div_iff_mult_less_eq)
  also have "\<dots> \<longleftrightarrow> k * p < n" using p by auto
  finally show ?thesis .
qed

lemma index_loop_from:
  assumes "0 < psize"
  shows "k \<le> page_total n psize \<Longrightarrow>
     \<exists>idx'. index_loop (int n) psize (int k * psize) (idx, int k)
       = Some (idx', int (page_total n psize))"
proof (induction "page_total n psize - k" arbitrary: k idx)
  case 0
  then have k: "k = page_total n psize" by simp
  then have "\<not> k * nat psize < n"
    using below_total [of "nat psize" k n] assms by (simp add: page_total_def)
  then have "\<not> int k * psize < int n"
    using assms by (metis nat_0_le nat_int of_nat_less_iff of_nat_mult order_less_imp_le)
  then show ?case using k by (subst index_loop.simps) simp
next
  case (Suc m)
  then have lt: "k < page_total n psize" by simp
  then have "k * nat psize < n"
    using below_total [of "nat psize" k n] assms by (simp add: page_total_def)
  then have i: "int k * psize < int n"
    using assms by (metis nat_0_le nat_int of_nat_less_iff of_nat_mult order_less_imp_le)
  have step: "int k * psize + psize = int (Suc k) * psize" by (simp add: algebra_simps)
  have "m = page_total n psize - Suc k" using Suc.hyps(2) by simp
  moreover have "Suc k \<le> page_total n psize" using lt by simp
  ultimately obtain idx' where
    "index_loop (int n) psize (int (Suc k) * psize) (idx @ index_anchor (int k), int (Suc k))
       = Some (idx', int (page_total n psize))"
    using Suc.hyps(1) by blast
  moreover have "index_loop (int n) psize (int k * psize) (idx, int k)
      = index_loop (int n) psize (int k * psize + psize) (idx @ index_anchor (int k), int k + 1)"
    using i by (subst index_loop.simps) simp
  moreover have "int k + 1 = int (Suc k)" by simp
  ultimately show ?case by (simp only: step) blast
qed

lemma below_total_int:
  assumes "0 < psize"
  shows "int k * psize < int n \<longleftrightarrow> k < page_total n psize"
proof -
  obtain p where p: "psize = int p" "0 < p" using assms by (metis nat_0_le order_less_imp_le zero_less_nat_eq)
  have "int k * psize < int n \<longleftrightarrow> k * p < n" unfolding p by (metis of_nat_less_iff of_nat_mult)
  also have "\<dots> \<longleftrightarrow> k < page_total n psize"
    using below_total [OF p(2), of k n] by (simp add: page_total_def p)
  finally show ?thesis .
qed

lemma go_rem_nat: "0 < t \<Longrightarrow> go_rem (int a) (int t) = Some (int (a mod t))"
  by (cases "a = 0") (simp_all add: go_rem_def zmod_int)

lemma go_slice_page:
  assumes "0 < p" and "j * p < length es"
  shows "go_slice es (int j * int p)
           (int j * int p + (if int p < int (length es) - int j * int p then int p
                             else int (length es) - int j * int p))
         = Some (take p (drop (j * p) es))"
proof -
  define i where "i = j * p"
  have ii: "int j * int p = int i" by (simp add: i_def)
  have il: "i < length es" using assms(2) by (simp add: i_def)
  have main: "go_slice es (int i)
           (int i + (if int p < int (length es) - int i then int p
                     else int (length es) - int i))
         = Some (take p (drop i es))"
  proof (cases "int p < int (length es) - int i")
    case True
    then have "i + p < length es" by linarith
    then have "go_slice es (int i) (int i + int p) = Some (take p (drop i es))"
      by (simp add: go_slice_def)
    with True show ?thesis by (simp only: if_True)
  next
    case False
    then have le: "length es \<le> i + p" by linarith
    have n: "nat (int (length es) - int i) = length es - i" by linarith
    have "go_slice es (int i) (int i + (int (length es) - int i))
            = Some (take (length es - i) (drop i es))"
      using il by (simp add: go_slice_def n)
    also have "take (length es - i) (drop i es) = take p (drop i es)"
      using le by simp
    finally show ?thesis using False by (simp only: if_False)
  qed
  then show ?thesis unfolding i_def of_nat_mult .
qed

lemma render_page_at:
  assumes "0 < pageSize e" and "j < page_total (length es) (pageSize e)"
  shows "render_page e exec es pageIndex (int (page_total (length es) (pageSize e))) ign
           (int j * pageSize e) (int j)
         = Some (page_number e exec es pageIndex ign j)"
proof -
  define T where "T = page_total (length es) (pageSize e)"
  obtain p where p: "pageSize e = int p" "0 < p"
    using assms(1) by (metis nat_0_le order_less_imp_le zero_less_nat_eq)
  have T: "0 < T" using assms(2) by (simp add: T_def)
  have "int j * pageSize e < int (length es)"
    using below_total_int [OF assms(1), of j "length es"] assms(2) by simp
  then have "int (j * p) < int (length es)" by (simp add: p)
  then have lt: "j * p < length es" by (simp only: of_nat_less_iff)
  have e1: "int (j + T - 1) = int j + int T - 1" using T by (simp add: of_nat_diff)
  have prev: "go_rem (int j + int T - 1) (int T) = Some (int ((j + T - 1) mod T))"
    using go_rem_nat [OF T, of "j + T - 1"] unfolding e1 .
  have e2: "int (j + 1) = int j + 1" by simp
  have nxt: "go_rem (int j + 1) (int T) = Some (int ((j + 1) mod T))"
    using go_rem_nat [OF T, of "j + 1"] unfolding e2 .
  note sl = go_slice_page [OF p(2) lt]
  show ?thesis
    unfolding render_page_def page_number_def Let_def T_def [symmetric]
    unfolding prev nxt p sl
    by simp
qed

lemma render_loop_from:
  assumes "0 < pageSize e"
  shows "k \<le> page_total (length es) (pageSize e) \<Longrightarrow>
     render_loop e exec es idx (int (page_total (length es) (pageSize e))) ign
         (int k * pageSize e) (int k) acc
       = Some (acc @ map (page_number e exec es idx ign)
                       [k..<page_total (length es) (pageSize e)], False)"
proof (induction "page_total (length es) (pageSize e) - k" arbitrary: k acc)
  case 0
  then have k: "k = page_total (length es) (pageSize e)" by simp
  then have "\<not> int k * pageSize e < int (length es)"
    using below_total_int [OF assms, of k "length es"] by simp
  then show ?case using k by (subst render_loop.simps) simp
next
  case (Suc m)
  then have lt: "k < page_total (length es) (pageSize e)" by simp
  then have i: "int k * pageSize e < int (length es)"
    using below_total_int [OF assms, of k "length es"] by simp
  have step: "int k * pageSize e + pageSize e = int (Suc k) * pageSize e"
    by (simp add: algebra_simps)
  have one: "int k + 1 = int (Suc k)" by simp
  have "m = page_total (length es) (pageSize e) - Suc k" using Suc.hyps(2) by simp
  moreover have "Suc k \<le> page_total (length es) (pageSize e)" using lt by simp
  ultimately have ih:
    "render_loop e exec es idx (int (page_total (length es) (pageSize e))) ign
         (int (Suc k) * pageSize e) (int (Suc k)) (acc @ [page_number e exec es idx ign k])
       = Some ((acc @ [page_number e exec es idx ign k])
                 @ map (page_number e exec es idx ign)
                     [Suc k..<page_total (length es) (pageSize e)], False)"
    using Suc.hyps(1) by blast
  have "render_loop e exec es idx (int (page_total (length es) (pageSize e))) ign
         (int k * pageSize e) (int k) acc
       = render_loop e exec es idx (int (page_total (length es) (pageSize e))) ign
         (int k * pageSize e + pageSize e) (int k + 1) (acc @ [page_number e exec es idx ign k])"
    using i render_page_at [OF assms lt] by (subst render_loop.simps) simp
  also have "\<dots> = Some ((acc @ [page_number e exec es idx ign k])
                 @ map (page_number e exec es idx ign)
                     [Suc k..<page_total (length es) (pageSize e)], False)"
    unfolding step one by (rule ih)
  also have "(acc @ [page_number e exec es idx ign k])
                 @ map (page_number e exec es idx ign) [Suc k..<page_total (length es) (pageSize e)]
      = acc @ map (page_number e exec es idx ign) [k..<page_total (length es) (pageSize e)]"
    using lt by (simp add: upt_conv_Cons)
  finally show ?case .
qed

lemma concat_pages:
  "concat (map (\<lambda>j. take p (drop (j * p) es)) [0..<m]) = take (m * p) es"
proof (induction m)
  case 0
  then show ?case by simp
next
  case (Suc m)
  have "Suc m * p = m * p + p" by simp
  then have "take (Suc m * p) es = take (m * p) es @ take p (drop (m * p) es)"
    by (simp only: take_add)
  with Suc show ?case by simp
qed

lemma loops_closed_form:
  assumes "0 < pageSize e"
  shows "\<exists>idx. index_loop (int (length es)) (pageSize e) 0 ([], 0)
                 = Some (idx, int (page_total (length es) (pageSize e))) \<and>
               render_loop e exec es idx (int (page_total (length es) (pageSize e))) ign 0 0 []
                 = Some (map (page_number e exec es idx ign)
                           [0..<page_total (length es) (pageSize e)], False)"
proof -
  obtain idx where
    "index_loop (int (length es)) (pageSize e) (int 0 * pageSize e) ([], int 0)
       = Some (idx, int (page_total (length es) (pageSize e)))"
    using index_loop_from [OF assms, of 0 "length es" "[]"] by blast
  moreover have
    "render_loop e exec es idx (int (page_total (length es) (pageSize e))) ign
        (int 0 * pageSize e) (int 0) []
       = Some ([] @ map (page_number e exec es idx ign)
                 [0..<page_total (length es) (pageSize e)], False)"
    using render_loop_from [OF assms, of 0 es exec idx ign "[]"] by blast
  ultimately show ?thesis by auto
qed


lemma shots_of_page:
  "ScreenShots (page_data (page_number e exec es idx ign j))
     = take (nat (pageSize e)) (drop (j * nat (pageSize e)) es)"
  by (simp add: page_number_def Let_def)

lemma concat_all_pages:
  assumes "0 < pageSize e"
  shows "concat (map (\<lambda>pg. ScreenShots (page_data pg))
           (map (page_number e exec es idx ign) [0..<page_total (length es) (pageSize e)])) = es"
proof -
  let ?T = "page_total (length es) (pageSize e)"
  let ?p = "nat (pageSize e)"
  have "\<not> ?T * ?p < length es"
    using below_total [of ?p ?T "length es"] assms by (simp add: page_total_def)
  then have "take (?T * ?p) es = es" by simp
  then show ?thesis by (simp add: o_def shots_of_page concat_pages)
qed


section \<open>Claims about the pages\<close>



text \<open>
  C5. For a positive page size and a non-empty list, the loops produce \<open>T \<ge> 1\<close> pages. Page
  \<open>p\<close> carries the number \<open>p\<close> and is written to \<open>./page-p.html\<close>; its previous link is the
  text \<open><a id="prev-page" href="page-q.html">Prev</a>\<close> with \<open>q = (p + T - 1) mod T\<close> written
  in decimal, and its next link is the text \<open>&#8226;<a id="next-page" href="page-n.html">Next</a>\<close>
  with \<open>n = (p + 1) mod T\<close>. So the previous link of page \<open>0\<close> names the file of the last
  page, and the next link of the last page names \<open>page-0.html\<close>.
\<close>

theorem circular_navigation:
  assumes "0 < pageSize e" and "es \<noteq> []"
  shows "\<exists>idx pages.
           index_loop (int (length es)) (pageSize e) 0 ([], 0)
             = Some (idx, int (page_total (length es) (pageSize e))) \<and>
           render_loop e exec es idx (int (page_total (length es) (pageSize e))) ign 0 0 []
             = Some (pages, False) \<and>
           length pages = page_total (length es) (pageSize e) \<and>
           0 < page_total (length es) (pageSize e) \<and>
           (\<forall>p < page_total (length es) (pageSize e).
              PageNumber (page_data (pages ! p)) = int p \<and>
              file_name (pages ! p) = ''./page-'' @ itoa (int p) @ ''.html'' \<and>
              PagePrev (page_data (pages ! p))
                = ''<a id='' @ [CHR 0x22] @ ''prev-page'' @ [CHR 0x22] @ '' href='' @ [CHR 0x22]
                    @ ''page-'' @ itoa ((int p + int (page_total (length es) (pageSize e)) - 1)
                              mod int (page_total (length es) (pageSize e))) @ ''.html'' @ [CHR 0x22] @ ''>Prev</a>'' \<and>
              PageNext (page_data (pages ! p))
                = ''&#8226;<a id='' @ [CHR 0x22] @ ''next-page'' @ [CHR 0x22] @ '' href='' @ [CHR 0x22]
                    @ ''page-'' @ itoa ((int p + 1) mod int (page_total (length es) (pageSize e))) @ ''.html'' @ [CHR 0x22] @ ''>Next</a>'') \<and>
           PagePrev (page_data (pages ! 0))
             = ''<a id='' @ [CHR 0x22] @ ''prev-page'' @ [CHR 0x22] @ '' href='' @ [CHR 0x22]
                    @ ''page-'' @ itoa (int (page_total (length es) (pageSize e)) - 1) @ ''.html'' @ [CHR 0x22] @ ''>Prev</a>'' \<and>
           PageNext (page_data (pages ! (page_total (length es) (pageSize e) - 1)))
             = ''&#8226;<a id='' @ [CHR 0x22] @ ''next-page'' @ [CHR 0x22] @ '' href='' @ [CHR 0x22]
                    @ ''page-0.html'' @ [CHR 0x22] @ ''>Next</a>''"
proof -
  define T where "T = page_total (length es) (pageSize e)"
  obtain idx where idx:
    "index_loop (int (length es)) (pageSize e) 0 ([], 0) = Some (idx, int T)"
    "render_loop e exec es idx (int T) ign 0 0 []
       = Some (map (page_number e exec es idx ign) [0..<T], False)"
    using loops_closed_form [OF assms(1), of es exec ign] unfolding T_def by blast
  define pages where "pages = map (page_number e exec es idx ign) [0..<T]"
  have len: "length pages = T" by (simp add: pages_def)
  have "int 0 * pageSize e < int (length es)" using assms(2) by simp
  then have T: "0 < T" using below_total_int [OF assms(1), of 0 "length es"] by (simp add: T_def)
  have nth: "pages ! p = page_number e exec es idx ign p" if "p < T" for p
    using that by (simp add: pages_def)
  have num: "PageNumber (page_data (page_number e exec es idx ign p)) = int p" for p
    by (simp add: page_number_def Let_def)
  have fil: "file_name (page_number e exec es idx ign p) = ''./page-'' @ itoa (int p) @ ''.html''"
    for p
    by (simp add: page_number_def Let_def page_file_def)
  have prv: "PagePrev (page_data (page_number e exec es idx ign p))
               = prev_link ((int p + int T - 1) mod int T)" for p
  proof -
    have "int (p + T - 1) = int p + int T - 1" using T by (simp add: of_nat_diff)
    then have "int ((p + T - 1) mod T) = (int p + int T - 1) mod int T"
      by (simp only: zmod_int)
    then show ?thesis by (simp add: page_number_def Let_def T_def)
  qed
  have nxt: "PageNext (page_data (page_number e exec es idx ign p))
               = next_link ((int p + 1) mod int T)" for p
  proof -
    have "int (p + 1) = int p + 1" by simp
    then have "int ((p + 1) mod T) = (int p + 1) mod int T" by (simp only: zmod_int)
    then show ?thesis by (simp add: page_number_def Let_def T_def)
  qed
  have all: "\<forall>p < T. PageNumber (page_data (pages ! p)) = int p \<and>
              file_name (pages ! p) = ''./page-'' @ itoa (int p) @ ''.html'' \<and>
              PagePrev (page_data (pages ! p)) = prev_link ((int p + int T - 1) mod int T) \<and>
              PageNext (page_data (pages ! p)) = next_link ((int p + 1) mod int T)"
    using nth num fil prv nxt by simp
  have "0 \<le> int T - 1" "int T - 1 < int T" using T by simp_all
  then have "(int T - 1) mod int T = int T - 1" by (rule mod_pos_pos_trivial)
  moreover have "int 0 + int T - 1 = int T - 1" by simp
  ultimately have "(int 0 + int T - 1) mod int T = int T - 1" by (simp only:)
  then have first: "PagePrev (page_data (pages ! 0)) = prev_link (int T - 1)"
    using prv [of 0] nth [OF T] by simp
  have "int (T - 1) + 1 = int T" using T by simp
  then have "(int (T - 1) + 1) mod int T = 0" by simp
  then have "PageNext (page_data (pages ! (T - 1))) = next_link 0"
    using nxt [of "T - 1"] nth [of "T - 1"] T by simp
  moreover have "next_link 0 = ''&#8226;<a id='' @ [CHR 0x22] @ ''next-page'' @ [CHR 0x22] @ '' href='' @ [CHR 0x22]
                    @ ''page-0.html'' @ [CHR 0x22] @ ''>Next</a>''"
    by code_simp
  ultimately have last: "PageNext (page_data (pages ! (T - 1))) = ''&#8226;<a id='' @ [CHR 0x22] @ ''next-page'' @ [CHR 0x22] @ '' href='' @ [CHR 0x22]
                    @ ''page-0.html'' @ [CHR 0x22] @ ''>Next</a>''"
    by (rule trans)
  from idx len T all first last show ?thesis
    unfolding T_def [symmetric] pages_def [symmetric] prev_link_def next_link_def
    by blast
qed

theorem circular_navigation_witness:
  "\<exists>idx pages.
     render_loop (world 1 False [] (\<lambda>p. StatOk)) echo_template five idx 5 0 0 0 []
       = Some (pages, False) \<and>
     length pages = 5 \<and>
     file_name (pages ! 4) = ''./page-4.html'' \<and>
     PagePrev (page_data (pages ! 0))
       = ''<a id='' @ [CHR 0x22] @ ''prev-page'' @ [CHR 0x22] @ '' href='' @ [CHR 0x22]
                    @ ''page-4.html'' @ [CHR 0x22] @ ''>Prev</a>'' \<and>
     PageNext (page_data (pages ! 4))
       = ''&#8226;<a id='' @ [CHR 0x22] @ ''next-page'' @ [CHR 0x22] @ '' href='' @ [CHR 0x22]
                    @ ''page-0.html'' @ [CHR 0x22] @ ''>Next</a>'' \<and>
     PagePrev (page_data (pages ! 2))
       = ''<a id='' @ [CHR 0x22] @ ''prev-page'' @ [CHR 0x22] @ '' href='' @ [CHR 0x22]
                    @ ''page-1.html'' @ [CHR 0x22] @ ''>Prev</a>'' \<and>
     PageNext (page_data (pages ! 2))
       = ''&#8226;<a id='' @ [CHR 0x22] @ ''next-page'' @ [CHR 0x22] @ '' href='' @ [CHR 0x22]
                    @ ''page-3.html'' @ [CHR 0x22] @ ''>Next</a>''"
proof -
  have P: "pageSize (world 1 False [] (\<lambda>p. StatOk)) = 1" by (simp add: world_def)
  then have h: "0 < pageSize (world 1 False [] (\<lambda>p. StatOk))" by simp
  have n: "five \<noteq> []" by (simp add: five_def)
  have T: "page_total (length five) 1 = 5" by (simp add: page_total_def five_def)
  have i: "itoa 4 = ''4''" "itoa 1 = ''1''" "itoa 3 = ''3''"
    by code_simp+
  from circular_navigation [OF h n, of echo_template 0]
  obtain idx pages where r:
    "render_loop (world 1 False [] (\<lambda>p. StatOk)) echo_template five idx 5 0 0 0 []
       = Some (pages, False)"
    "length pages = 5"
    "\<forall>p < 5. PageNumber (page_data (pages ! p)) = int p \<and>
        file_name (pages ! p) = ''./page-'' @ itoa (int p) @ ''.html'' \<and>
        PagePrev (page_data (pages ! p))
          = ''<a id='' @ [CHR 0x22] @ ''prev-page'' @ [CHR 0x22] @ '' href='' @ [CHR 0x22]
                    @ ''page-'' @ itoa ((int p + 5 - 1) mod 5) @ ''.html'' @ [CHR 0x22] @ ''>Prev</a>'' \<and>
        PageNext (page_data (pages ! p))
          = ''&#8226;<a id='' @ [CHR 0x22] @ ''next-page'' @ [CHR 0x22] @ '' href='' @ [CHR 0x22]
                    @ ''page-'' @ itoa ((int p + 1) mod 5) @ ''.html'' @ [CHR 0x22] @ ''>Next</a>''"
    "PageNext (page_data (pages ! 4))
       = ''&#8226;<a id='' @ [CHR 0x22] @ ''next-page'' @ [CHR 0x22] @ '' href='' @ [CHR 0x22]
                    @ ''page-0.html'' @ [CHR 0x22] @ ''>Next</a>''"
    unfolding P T by auto
  from r(3) have "file_name (pages ! 4) = ''./page-'' @ itoa (int 4) @ ''.html''"
    and "PagePrev (page_data (pages ! 0)) = ''<a id='' @ [CHR 0x22] @ ''prev-page'' @ [CHR 0x22] @ '' href='' @ [CHR 0x22]
                    @ ''page-'' @ itoa ((int 0 + 5 - 1) mod 5) @ ''.html'' @ [CHR 0x22] @ ''>Prev</a>''"
    and "PagePrev (page_data (pages ! 2)) = ''<a id='' @ [CHR 0x22] @ ''prev-page'' @ [CHR 0x22] @ '' href='' @ [CHR 0x22]
                    @ ''page-'' @ itoa ((int 2 + 5 - 1) mod 5) @ ''.html'' @ [CHR 0x22] @ ''>Prev</a>''"
    and "PageNext (page_data (pages ! 2)) = ''&#8226;<a id='' @ [CHR 0x22] @ ''next-page'' @ [CHR 0x22] @ '' href='' @ [CHR 0x22]
                    @ ''page-'' @ itoa ((int 2 + 1) mod 5) @ ''.html'' @ [CHR 0x22] @ ''>Next</a>''"
    by simp_all
  then have "file_name (pages ! 4) = ''./page-4.html''"
    and "PagePrev (page_data (pages ! 0)) = ''<a id='' @ [CHR 0x22] @ ''prev-page'' @ [CHR 0x22] @ '' href='' @ [CHR 0x22]
                    @ ''page-4.html'' @ [CHR 0x22] @ ''>Prev</a>''"
    and "PagePrev (page_data (pages ! 2)) = ''<a id='' @ [CHR 0x22] @ ''prev-page'' @ [CHR 0x22] @ '' href='' @ [CHR 0x22]
                    @ ''page-1.html'' @ [CHR 0x22] @ ''>Prev</a>''"
    and "PageNext (page_data (pages ! 2)) = ''&#8226;<a id='' @ [CHR 0x22] @ ''next-page'' @ [CHR 0x22] @ '' href='' @ [CHR 0x22]
                    @ ''page-3.html'' @ [CHR 0x22] @ ''>Next</a>''"
    by (simp_all add: i)
  with r(1,2,4) show ?thesis by blast
qed

section \<open>The whole run\<close>

lemma sort_entries_mset: "sorts (sort_slice e) \<Longrightarrow> mset (sort_entries e kept) = mset kept"
proof -
  assume s: "sorts (sort_slice e)"
  let ?ys = "sort_slice e (title_less e) kept"
  let ?k = "lastSortIndex ?ys"
  have "mset (sort_entries e kept)
          = mset (sort_slice e (server_less e) (take ?k ?ys)) + mset (drop ?k ?ys)"
    by (simp add: sort_entries_def Let_def)
  also have "\<dots> = mset (take ?k ?ys) + mset (drop ?k ?ys)"
    by (simp only: sortsD(3) [OF s])
  also have "\<dots> = mset (take ?k ?ys @ drop ?k ?ys)" by (simp only: mset_append)
  also have "\<dots> = mset ?ys" by (simp only: append_take_drop_id)
  also have "\<dots> = mset kept" by (rule sortsD(1) [OF s])
  finally show ?thesis .
qed

lemma Run_pages:
  assumes "db e = Inr store" and "ascend e store ([], 0) = Inr (kept, ignored)"
    and "sorts (sort_slice e)" and "kept \<noteq> []" and "template e = Inr exec"
    and "0 < pageSize e"
  shows "\<exists>idx. index_loop (int (length kept)) (pageSize e) 0 ([], 0)
                  = Some (idx, int (page_total (length kept) (pageSize e))) \<and>
           Run e = Some \<lparr>ending = Returned,
                     logs = [(InfoLevel, [(''report-file'', StringField ''page-0.html'')],
                              ''Report generated'')],
                     pages = map (page_number e exec (map (display e) (sort_entries e kept))
                                    idx ignored)
                               [0..<page_total (length kept) (pageSize e)]\<rparr>"
proof -
  let ?es = "sort_entries e kept"
  have "mset ?es = mset kept" using assms(3) by (rule sort_entries_mset)
  then have "size (mset ?es) = size (mset kept)" by (rule arg_cong)
  then have len: "length ?es = length kept" by (simp only: size_mset)
  then have ne: "?es \<noteq> []" using assms(4) by (metis length_0_conv)
  obtain idx where idx:
    "index_loop (int (length (map (display e) ?es))) (pageSize e) 0 ([], 0)
       = Some (idx, int (page_total (length (map (display e) ?es)) (pageSize e)))"
    "render_loop e exec (map (display e) ?es) idx
         (int (page_total (length (map (display e) ?es)) (pageSize e))) ignored 0 0 []
       = Some (map (page_number e exec (map (display e) ?es) idx ignored)
                 [0..<page_total (length (map (display e) ?es)) (pageSize e)], False)"
    using loops_closed_form [OF assms(6), of "map (display e) ?es" exec ignored] by blast
  have l: "length (map (display e) ?es) = length kept" using len by simp
  from idx(1) have i1: "index_loop (int (length kept)) (pageSize e) 0 ([], 0)
       = Some (idx, int (page_total (length kept) (pageSize e)))" unfolding l .
  from idx(2) have i2: "render_loop e exec (map (display e) ?es) idx
         (int (page_total (length kept) (pageSize e))) ignored 0 0 []
       = Some (map (page_number e exec (map (display e) ?es) idx ignored)
                 [0..<page_total (length kept) (pageSize e)], False)" unfolding l .
  have "Run e = Some \<lparr>ending = Returned,
                     logs = [(InfoLevel, [(''report-file'', StringField ''page-0.html'')],
                              ''Report generated'')],
                     pages = map (page_number e exec (map (display e) ?es) idx ignored)
                               [0..<page_total (length kept) (pageSize e)]\<rparr>"
    unfolding Run_def using assms(1,2,5) ne i1 i2 by (simp add: Let_def len)
  with i1 show ?thesis by blast
qed

section \<open>Claims about the whole run\<close>

text \<open>
  C7, as the claim states it, fails: with three stored records, all of code 404 and none
  kept, three are counted as ignored, but the error report carries the count \<open>0\<close>, the
  number of kept entries.
\<close>

theorem ignored_count_counterexample:
  "ascend (world 40 False three_404 (\<lambda>p. StatOk)) [(''k1'', ''k1''), (''k2'', ''k2''), (''k3'', ''k3'')] ([], 0)
     = Inr ([], 3) \<and>
   Run (world 40 False three_404 (\<lambda>p. StatOk))
     = Some \<lparr>ending = Returned,
             logs = [(ErrorLevel, [(''count'', IntField 0)],
                      ''No screenshot entries exist to create a report'')],
             pages = []\<rparr>"
  by code_simp

text \<open>
  C7, amended. Whenever nothing is kept after filtering, the run returns normally without
  rendering or writing any page, and emits one error-level report whose count is \<open>0\<close>, the
  number of kept entries; the number of ignored records is not reported.
\<close>

theorem empty_run_reports_zero:
  assumes "db e = Inr store" and "ascend e store ([], 0) = Inr ([], ignored)"
    and "sorts (sort_slice e)"
  shows "Run e = Some \<lparr>ending = Returned,
                       logs = [(ErrorLevel, [(''count'', IntField 0)],
                                ''No screenshot entries exist to create a report'')],
                       pages = []\<rparr>"
proof -
  have "mset (sort_entries e []) = mset []" using assms(3) by (rule sort_entries_mset)
  then have "sort_entries e [] = []" by simp
  then show ?thesis using assms(1,2) by (simp add: Run_def)
qed

theorem empty_run_reports_zero_witness:
  "db (world 40 False three_404 (\<lambda>p. StatOk)) = Inr [(''k1'', ''k1''), (''k2'', ''k2''), (''k3'', ''k3'')] \<and>
   ascend (world 40 False three_404 (\<lambda>p. StatOk)) [(''k1'', ''k1''), (''k2'', ''k2''), (''k3'', ''k3'')] ([], 0)
     = Inr ([], 3) \<and>
   Run (world 40 False three_404 (\<lambda>p. StatOk))
     = Some \<lparr>ending = Returned,
             logs = [(ErrorLevel, [(''count'', IntField 0)],
                      ''No screenshot entries exist to create a report'')],
             pages = []\<rparr>"
proof -
  have d: "db (world 40 False three_404 (\<lambda>p. StatOk)) = Inr [(''k1'', ''k1''), (''k2'', ''k2''), (''k3'', ''k3'')]"
    by (simp add: world_def three_404_def)
  have a: "ascend (world 40 False three_404 (\<lambda>p. StatOk)) [(''k1'', ''k1''), (''k2'', ''k2''), (''k3'', ''k3'')] ([], 0)
     = Inr ([], 3)"
    by code_simp
  from d a empty_run_reports_zero [OF d a sorts_world] show ?thesis by blast
qed

lemma display_eq:
  "display e r =
     r\<lparr>ScreenshotFile := (if ScreenshotFile r = PlaceHolderImage e then ScreenshotFile r
                          else Base (ScreenshotFile r)),
       Headers := filter (\<lambda>h. ToLower e (Key h) = ''server'') (Headers r)\<rparr>"
  by (simp add: display_def Let_def)

text \<open>
  C8. The display projection changes only \<open>ScreenshotFile\<close>, to its base name unless it is
  the placeholder, and \<open>Headers\<close>, to the entries whose key is \<open>server\<close> up to case, in
  their order. It is applied after the filter and the sort: the pages of a run hold, in
  order, the projections of the kept records as sorted, where the filter and the sort have
  worked on the records as loaded, and the number of pages is that of the kept records.
\<close>

theorem display_after_sort:
  assumes "db e = Inr store" and "ascend e store ([], 0) = Inr (kept, ignored)"
    and "sorts (sort_slice e)" and "kept \<noteq> []" and "template e = Inr exec"
    and "0 < pageSize e"
  shows "display e r =
           r\<lparr>ScreenshotFile := (if ScreenshotFile r = PlaceHolderImage e then ScreenshotFile r
                                else Base (ScreenshotFile r)),
             Headers := filter (\<lambda>h. ToLower e (Key h) = ''server'') (Headers r)\<rparr> \<and>
         (\<exists>res. Run e = Some res \<and>
            length (pages res) = page_total (length kept) (pageSize e) \<and>
            concat (map (\<lambda>pg. ScreenShots (page_data pg)) (pages res))
              = map (display e) (sort_entries e kept))"
proof -
  obtain idx where run:
    "Run e = Some \<lparr>ending = Returned,
                     logs = [(InfoLevel, [(''report-file'', StringField ''page-0.html'')],
                              ''Report generated'')],
                     pages = map (page_number e exec (map (display e) (sort_entries e kept))
                                    idx ignored)
                               [0..<page_total (length kept) (pageSize e)]\<rparr>"
    using Run_pages [OF assms] by blast
  have "mset (sort_entries e kept) = mset kept" using assms(3) by (rule sort_entries_mset)
  then have "size (mset (sort_entries e kept)) = size (mset kept)" by (rule arg_cong)
  then have len: "length (map (display e) (sort_entries e kept)) = length kept"
    by (simp only: size_mset length_map)
  have "concat (map (\<lambda>pg. ScreenShots (page_data pg))
           (map (page_number e exec (map (display e) (sort_entries e kept)) idx ignored)
              [0..<page_total (length kept) (pageSize e)]))
          = map (display e) (sort_entries e kept)"
    using concat_all_pages [OF assms(6), of exec "map (display e) (sort_entries e kept)" idx ignored]
    unfolding len .
  with run display_eq [of e r] show ?thesis by simp
qed

theorem display_after_sort_witness:
  "\<exists>res. Run (world 1 False two_ok half_missing) = Some res \<and>
     length (pages res) = 2 \<and>
     concat (map (\<lambda>pg. ScreenShots (page_data pg)) (pages res))
       = [shot ''http://a'' 200 ''Alpha'' ''placeholder.png'' [],
          shot ''http://b'' 200 ''Beta'' ''b.png'' [header ''Server'' ''nginx'']]"
proof -
  let ?W = "world 1 False two_ok half_missing"
  let ?kept = "[shot ''http://a'' 200 ''Alpha'' ''placeholder.png'' [header ''Date'' ''today''],
                shot ''http://b'' 200 ''Beta'' ''/s/b.png'' [header ''Server'' ''nginx'']]"
  have d: "db ?W = Inr [(''k1'', ''k1''), (''k2'', ''k2'')]"
    by (simp add: world_def two_ok_def)
  have a: "ascend ?W [(''k1'', ''k1''), (''k2'', ''k2'')] ([], 0) = Inr (?kept, 0)"
    by code_simp
  have n: "?kept \<noteq> []" by simp
  have t: "template ?W = Inr echo_template" by (simp add: world_def)
  have p: "0 < pageSize ?W" by (simp add: world_def)
  have T: "page_total (length ?kept) (pageSize ?W) = 2" by (simp add: page_total_def world_def)
  have m: "map (display ?W) (sort_entries ?W ?kept)
             = [shot ''http://a'' 200 ''Alpha'' ''placeholder.png'' [],
                shot ''http://b'' 200 ''Beta'' ''b.png'' [header ''Server'' ''nginx'']]"
    by code_simp
  from display_after_sort [OF d a sorts_world n t p, of home]
  show ?thesis unfolding T m by blast
qed

text \<open>
  C9, as the claim states it, fails: in a world where the template fails on every page and
  the first page cannot be written, the run returns normally and logs only its success line.
\<close>

theorem silent_failure_counterexample:
  "map_option ending (Run failing_world) = Some Returned \<and>
   map_option logs (Run failing_world)
     = Some [(InfoLevel, [(''report-file'', StringField ''page-0.html'')], ''Report generated'')] \<and>
   map_option (map (\<lambda>pg. (file_name pg, execute_failed pg, write_failed pg)) \<circ> pages)
       (Run failing_world)
     = Some [(''./page-0.html'', True, True), (''./page-1.html'', True, False)]"
  by code_simp

text \<open>
  C9, amended. Whatever the template execution and the file writes do, a run with a kept
  record and a positive page size returns normally and logs only its success line: no
  failure of a page is reported. Every page is still rendered and handed to the file write,
  page \<open>p\<close> under the name \<open>./page-p.html\<close> and with the number \<open>p\<close>, with the bytes the
  template produced for it.
\<close>

theorem failures_ignored_numbering_kept:
  assumes "db e = Inr store" and "ascend e store ([], 0) = Inr (kept, ignored)"
    and "sorts (sort_slice e)" and "kept \<noteq> []" and "template e = Inr exec"
    and "0 < pageSize e"
  shows "\<exists>res. Run e = Some res \<and> ending res = Returned \<and>
           logs res = [(InfoLevel, [(''report-file'', StringField ''page-0.html'')],
                        ''Report generated'')] \<and>
           length (pages res) = page_total (length kept) (pageSize e) \<and>
           (\<forall>p < length (pages res).
              file_name (pages res ! p) = ''./page-'' @ itoa (int p) @ ''.html'' \<and>
              PageNumber (page_data (pages res ! p)) = int p \<and>
              file_bytes (pages res ! p) = fst (exec (page_data (pages res ! p))) \<and>
              execute_failed (pages res ! p) = snd (exec (page_data (pages res ! p))) \<and>
              write_failed (pages res ! p)
                = write_file e (file_name (pages res ! p)) (file_bytes (pages res ! p)))"
proof -
  obtain idx where run:
    "Run e = Some \<lparr>ending = Returned,
                     logs = [(InfoLevel, [(''report-file'', StringField ''page-0.html'')],
                              ''Report generated'')],
                     pages = map (page_number e exec (map (display e) (sort_entries e kept))
                                    idx ignored)
                               [0..<page_total (length kept) (pageSize e)]\<rparr>"
    using Run_pages [OF assms] by blast
  have pg: "file_name (page_number e exec es idx ignored p) = ''./page-'' @ itoa (int p) @ ''.html'' \<and>
            PageNumber (page_data (page_number e exec es idx ignored p)) = int p \<and>
            file_bytes (page_number e exec es idx ignored p)
              = fst (exec (page_data (page_number e exec es idx ignored p))) \<and>
            execute_failed (page_number e exec es idx ignored p)
              = snd (exec (page_data (page_number e exec es idx ignored p))) \<and>
            write_failed (page_number e exec es idx ignored p)
              = write_file e (file_name (page_number e exec es idx ignored p))
                  (file_bytes (page_number e exec es idx ignored p))" for es p
    by (simp add: page_number_def Let_def page_file_def)
  show ?thesis unfolding run using pg by simp
qed

theorem failures_ignored_numbering_kept_witness:
  "\<exists>res. Run failing_world = Some res \<and> ending res = Returned \<and>
     length (pages res) = 2 \<and>
     file_name (pages res ! 1) = ''./page-1.html'' \<and>
     execute_failed (pages res ! 1) \<and>
     PageNumber (page_data (pages res ! 1)) = 1"
proof -
  let ?kept = "[shot ''http://a'' 200 ''Alpha'' ''/s/a.png'' [header ''Date'' ''today''],
                shot ''http://b'' 200 ''Beta'' ''/s/b.png'' [header ''Server'' ''nginx'']]"
  have d: "db failing_world = Inr [(''k1'', ''k1''), (''k2'', ''k2'')]"
    by (simp add: failing_world_def world_def two_ok_def)
  have a: "ascend failing_world [(''k1'', ''k1''), (''k2'', ''k2'')] ([], 0) = Inr (?kept, 0)"
    by code_simp
  have s: "sorts (sort_slice failing_world)"
    by (simp add: failing_world_def world_def sorts_insertion_sort)
  have n: "?kept \<noteq> []" by simp
  have t: "template failing_world = Inr (\<lambda>td. ([], True))"
    by (simp add: failing_world_def)
  have p: "0 < pageSize failing_world" by (simp add: failing_world_def world_def)
  have T: "page_total (length ?kept) (pageSize failing_world) = 2"
    by (simp add: page_total_def failing_world_def world_def)
  have i: "''./page-'' @ itoa (int 1) @ ''.html'' = ''./page-1.html''" by code_simp
  from failures_ignored_numbering_kept [OF d a s n t p]
  obtain res where res:
    "Run failing_world = Some res" "ending res = Returned" "length (pages res) = 2"
    "\<forall>p < length (pages res).
        file_name (pages res ! p) = ''./page-'' @ itoa (int p) @ ''.html'' \<and>
        PageNumber (page_data (pages res ! p)) = int p \<and>
        file_bytes (pages res ! p) = fst (([], True) :: string \<times> bool) \<and>
        execute_failed (pages res ! p) = snd (([], True) :: string \<times> bool) \<and>
        write_failed (pages res ! p)
          = write_file failing_world (file_name (pages res ! p)) (file_bytes (pages res ! p))"
    unfolding T by blast
  from res(3) have "1 < length (pages res)" by simp
  with res(4) have
    "file_name (pages res ! 1) = ''./page-'' @ itoa (int 1) @ ''.html''"
    "PageNumber (page_data (pages res ! 1)) = int 1"
    "execute_failed (pages res ! 1) = snd (([], True) :: string \<times> bool)"
    by blast+
  then have "file_name (pages res ! 1) = ''./page-1.html''"
    "PageNumber (page_data (pages res ! 1)) = 1" "execute_failed (pages res ! 1)"
    unfolding i by simp_all
  with res(1,2,3) show ?thesis by blast
qed

section \<open>The placeholder\<close>

lemma load_all_decoded:
  "map (\<lambda>kv. unmarshal e (snd kv)) store = map Inr decoded
     \<Longrightarrow> load_all e store = Inr (map (probe e) decoded)"
proof (induction store arbitrary: decoded)
  case Nil
  then show ?case by simp
next
  case (Cons kv kvs)
  from Cons.prems obtain d ds where d: "decoded = d # ds" by (cases decoded) auto
  with Cons.prems have "unmarshal e (snd kv) = Inr d"
    and "map (\<lambda>kv. unmarshal e (snd kv)) kvs = map Inr ds" by simp_all
  then show ?case using Cons.IH [of ds] d by simp
qed

lemma length_filter_complement:
  "int (length (filter (\<lambda>x. \<not> P x) xs)) = int (length xs) - int (length (filter P xs))"
  using sum_length_filter_compl [of P xs] by simp

lemma ascend_decoded:
  assumes "map (\<lambda>kv. unmarshal e (snd kv)) store = map Inr decoded"
  shows "ascend e store ([], 0) =
           Inr (filter (\<lambda>r. includeErrors e \<or> 200 \<le> ResponseCode r \<and> ResponseCode r < 300) (map (probe e) decoded),
                int (length decoded) - int (length (filter (\<lambda>r. includeErrors e \<or> 200 \<le> ResponseCode r \<and> ResponseCode r < 300) (map (probe e) decoded))))"
proof -
  define ds where "ds = map (probe e) decoded"
  have l: "load_all e store = Inr ds" unfolding ds_def using assms by (rule load_all_decoded)
  have n: "length ds = length decoded" by (simp add: ds_def)
  have "ascend e store ([], 0) = Inr (filter (\<lambda>r. includeErrors e \<or> 200 \<le> ResponseCode r \<and> ResponseCode r < 300) ds, int (length ds) - int (length (filter (\<lambda>r. includeErrors e \<or> 200 \<le> ResponseCode r \<and> ResponseCode r < 300) ds)))"
  proof (cases "includeErrors e")
    case True
    then show ?thesis unfolding ascend_load l by simp
  next
    case False
    then have k: "(\<lambda>r. includeErrors e \<or> 200 \<le> ResponseCode r \<and> ResponseCode r < 300) = successful"
      by (intro ext) (simp add: successful_def)
    have c: "int (length (filter (\<lambda>d. \<not> successful d) ds))
            = int (length ds) - int (length (filter successful ds))"
      by (rule length_filter_complement)
    have "ascend e store ([], 0)
            = Inr (filter successful ds, int (length (filter (\<lambda>d. \<not> successful d) ds)))"
      unfolding ascend_load l using False by simp
    then show ?thesis unfolding k c .
  qed
  then show ?thesis unfolding n unfolding ds_def .
qed

lemma Run_no_entries:
  assumes "db e = Inr store" and "ascend e store ([], 0) = Inr ([], ignored)"
    and "sorts (sort_slice e)"
  shows "Run e = Some \<lparr>ending = Returned,
                   logs = [(ErrorLevel, [(''count'', IntField 0)],
                            ''No screenshot entries exist to create a report'')],
                   pages = []\<rparr>"
proof -
  have "mset (sort_entries e []) = mset []" using assms(3) by (rule sort_entries_mset)
  then have "sort_entries e [] = []" by simp
  then show ?thesis unfolding Run_def using assms(1,2) by (simp add: Let_def)
qed

lemma Run_no_template:
  assumes "db e = Inr store" and "ascend e store ([], 0) = Inr (kept, ignored)"
    and "sorts (sort_slice e)" and "kept \<noteq> []" and "template e = Inl err"
  shows "Run e = Some \<lparr>ending = Exited,
                   logs = [(FatalLevel, [(''err'', StringField err)], ''Failed to parse template'')],
                   pages = []\<rparr>"
proof -
  have "mset (sort_entries e kept) = mset kept" using assms(3) by (rule sort_entries_mset)
  then have "size (mset (sort_entries e kept)) = size (mset kept)" by (rule arg_cong)
  then have "length (sort_entries e kept) = length kept" by (simp only: size_mset)
  then have "sort_entries e kept \<noteq> []" using assms(4) by (metis length_0_conv)
  then show ?thesis unfolding Run_def using assms(1,2,5) by (simp add: Let_def)
qed

text \<open>
  C6, as the claim states it, fails: on a file system where probing the screenshot path
  gives an error other than absence, the record is loaded with its path unchanged, the run
  returns normally and logs only its success line.
\<close>

theorem stat_error_counterexample:
  "stat (world 40 False one_page denied) ''/s/a.png'' = StatOtherError \<and>
   ascend (world 40 False one_page denied) [(''k1'', ''k1'')] ([], 0)
     = Inr ([shot ''http://a'' 200 ''Alpha'' ''/s/a.png''
               [header ''Server'' ''nginx'', header ''Date'' ''today'']], 0) \<and>
   map_option ending (Run (world 40 False one_page denied)) = Some Returned \<and>
   map_option logs (Run (world 40 False one_page denied))
     = Some [(InfoLevel, [(''report-file'', StringField ''page-0.html'')], ''Report generated'')]"
  by code_simp

text \<open>
  C6, amended. Take a run whose database can be read and whose stored values all decode,
  with a \<open>sort.Slice\<close> that does what it promises and a positive page size. The kept list
  is the list of the decoded records, in scan order, each with \<open>ScreenshotFile\<close> replaced
  by the placeholder exactly when the probe of its path reports that the file does not
  exist and left as decoded on every other outcome of the probe, success or error,
  filtered by the response code unless \<open>includeErrors\<close> is set. Whatever the file system
  answers, the run comes to its end and never fails on the account of a probe: with an
  empty kept list it returns after the one error line on the count \<open>0\<close>; with a template
  that does not parse it exits on the fatal line about the template; otherwise it returns
  after the one line \<open>Report generated\<close>.
\<close>

theorem placeholder_law:
  assumes "db e = Inr store"
    and "map (\<lambda>kv. unmarshal e (snd kv)) store = map Inr decoded"
    and "sorts (sort_slice e)" and "0 < pageSize e"
  shows "\<exists>kept res.
           kept = filter (\<lambda>r. includeErrors e \<or> 200 \<le> ResponseCode r \<and> ResponseCode r < 300)
                    (map (\<lambda>d. if stat e (ScreenshotFile d) = StatNotExist
                         then d\<lparr>ScreenshotFile := PlaceHolderImage e\<rparr> else d)
                       decoded) \<and>
           ascend e store ([], 0) = Inr (kept, int (length decoded) - int (length kept)) \<and>
           Run e = Some res \<and>
           ending res = (case template e of
                           Inl err \<Rightarrow> if kept = [] then Returned else Exited
                         | Inr exec \<Rightarrow> Returned) \<and>
           logs res =
             (if kept = [] then
                [(ErrorLevel, [(''count'', IntField 0)],
                  ''No screenshot entries exist to create a report'')]
              else
                (case template e of
                   Inl err \<Rightarrow>
                     [(FatalLevel, [(''err'', StringField err)], ''Failed to parse template'')]
                 | Inr exec \<Rightarrow>
                     [(InfoLevel, [(''report-file'', StringField ''page-0.html'')],
                       ''Report generated'')]))"
proof -
  define kept where "kept = filter (\<lambda>r. includeErrors e \<or> 200 \<le> ResponseCode r \<and> ResponseCode r < 300) (map (probe e) decoded)"
  have p: "probe e = (\<lambda>d. if stat e (ScreenshotFile d) = StatNotExist
                         then d\<lparr>ScreenshotFile := PlaceHolderImage e\<rparr> else d)"
    by (intro ext) (simp add: probe_def)
  have a: "ascend e store ([], 0) = Inr (kept, int (length decoded) - int (length kept))"
    unfolding kept_def using assms(2) by (rule ascend_decoded)
  have "\<exists>res. Run e = Some res \<and>
           ending res = (case template e of
                           Inl err \<Rightarrow> if kept = [] then Returned else Exited
                         | Inr exec \<Rightarrow> Returned) \<and>
           logs res =
             (if kept = [] then
                [(ErrorLevel, [(''count'', IntField 0)],
                  ''No screenshot entries exist to create a report'')]
              else
                (case template e of
                   Inl err \<Rightarrow>
                     [(FatalLevel, [(''err'', StringField err)], ''Failed to parse template'')]
                 | Inr exec \<Rightarrow>
                     [(InfoLevel, [(''report-file'', StringField ''page-0.html'')],
                       ''Report generated'')]))"
  proof (cases "kept = []")
    case True
    with a have "ascend e store ([], 0) = Inr ([], int (length decoded) - int (length kept))"
      by simp
    from Run_no_entries [OF assms(1) this assms(3)] True show ?thesis
      by (cases "template e") simp_all
  next
    case False
    show ?thesis
    proof (cases "template e")
      case (Inl err)
      from Run_no_template [OF assms(1) a assms(3) False Inl] False Inl show ?thesis by simp
    next
      case (Inr exec)
      from Run_pages [OF assms(1) a assms(3) False Inr assms(4)] False Inr show ?thesis by auto
    qed
  qed
  with a show ?thesis unfolding kept_def p by blast
qed

theorem placeholder_law_witness:
  "ascend (world 40 False two_ok mixed) [(''k1'', ''k1''), (''k2'', ''k2'')] ([], 0)
     = Inr ([shot ''http://a'' 200 ''Alpha'' ''placeholder.png'' [header ''Date'' ''today''],
             shot ''http://b'' 200 ''Beta'' ''/s/b.png'' [header ''Server'' ''nginx'']], 0) \<and>
   (\<exists>res. Run (world 40 False two_ok mixed) = Some res \<and> ending res = Returned \<and>
      logs res = [(InfoLevel, [(''report-file'', StringField ''page-0.html'')],
                   ''Report generated'')])"
proof -
  let ?W = "world 40 False two_ok mixed"
  let ?decoded = "[shot ''http://a'' 200 ''Alpha'' ''/s/a.png'' [header ''Date'' ''today''],
                   shot ''http://b'' 200 ''Beta'' ''/s/b.png'' [header ''Server'' ''nginx'']]"
  have d: "db ?W = Inr [(''k1'', ''k1''), (''k2'', ''k2'')]"
    by (simp add: world_def two_ok_def)
  have u: "map (\<lambda>kv. unmarshal ?W (snd kv)) [(''k1'', ''k1''), (''k2'', ''k2'')] = map Inr ?decoded"
    by (simp add: world_def two_ok_def decode_table_def)
  have P: "0 < pageSize ?W" by (simp add: world_def)
  have k: "filter (\<lambda>r. includeErrors ?W \<or> 200 \<le> ResponseCode r \<and> ResponseCode r < 300)
             (map (\<lambda>d. if stat ?W (ScreenshotFile d) = StatNotExist
                        then d\<lparr>ScreenshotFile := PlaceHolderImage ?W\<rparr> else d) ?decoded)
           = [shot ''http://a'' 200 ''Alpha'' ''placeholder.png'' [header ''Date'' ''today''],
              shot ''http://b'' 200 ''Beta'' ''/s/b.png'' [header ''Server'' ''nginx'']]"
    by (simp add: world_def shot_def mixed_def)
  have t: "template ?W = Inr echo_template" by (simp add: world_def)
  from placeholder_law [OF d u sorts_world P]
  show ?thesis unfolding k t by auto
qed

end
